theory Spec2Isabelle
  imports Main "HOL-Library.Multiset"
begin

section \<open>JavaScript values\<close>

text \<open>
  The values that reach \<^verbatim>\<open>src/scripts/database.js\<close>: \<^verbatim>\<open>undefined\<close>, \<^verbatim>\<open>null\<close>,
  booleans, numbers, strings, arrays and plain objects. A number is an integer, \<^verbatim>\<open>NaN\<close>
  or an infinity; arithmetic on integers is exact, as it is in JavaScript on safe integers
  (fractions and negative zero are outside the model). An object is the list of its own
  properties in insertion order.
\<close>

datatype number = NaN | NegInfinity | Finite int | PosInfinity

datatype jsval =
    JUndefined
  | JNull
  | JBool bool
  | JNumber number
  | JString string
  | JArray "jsval list"
  | JObject "(string \<times> jsval) list"

type_synonym obj = "(string \<times> jsval) list"

text \<open>\<^verbatim>\<open>o[name]\<close> on a plain object: the own property, or \<^verbatim>\<open>undefined\<close>.\<close>

definition get_prop :: "obj \<Rightarrow> string \<Rightarrow> jsval" where
  "get_prop ob name = (case map_of ob name of Some v \<Rightarrow> v | None \<Rightarrow> JUndefined)"

text \<open>\<^verbatim>\<open>o[name] = v\<close>: an existing property keeps its place, a new one goes last.\<close>

fun set_prop :: "obj \<Rightarrow> string \<Rightarrow> jsval \<Rightarrow> obj" where
  "set_prop [] name v = [(name, v)]"
| "set_prop ((n, w) # ps) name v =
     (if n = name then (n, v) # ps else (n, w) # set_prop ps name v)"

text \<open>\<^verbatim>\<open>delete o[name]\<close>.\<close>

definition delete_prop :: "obj \<Rightarrow> string \<Rightarrow> obj" where
  "delete_prop ob name = filter (\<lambda>(n, _). n \<noteq> name) ob"

text \<open>ToBoolean: what \<^verbatim>\<open>v ? a : b\<close>, \<^verbatim>\<open>!v\<close> and \<^verbatim>\<open>v || w\<close> test.\<close>

fun truthy :: "jsval \<Rightarrow> bool" where
  "truthy JUndefined = False"
| "truthy JNull = False"
| "truthy (JBool b) = b"
| "truthy (JNumber n) = (n \<noteq> NaN \<and> n \<noteq> Finite 0)"
| "truthy (JString s) = (s \<noteq> [])"
| "truthy (JArray _) = True"
| "truthy (JObject _) = True"

subsection \<open>Numbers and strings\<close>

fun num_less :: "number \<Rightarrow> number \<Rightarrow> bool" where
  "num_less NaN _ = False"
| "num_less _ NaN = False"
| "num_less NegInfinity b = (b \<noteq> NegInfinity)"
| "num_less (Finite a) (Finite b) = (a < b)"
| "num_less (Finite _) PosInfinity = True"
| "num_less (Finite _) NegInfinity = False"
| "num_less PosInfinity _ = False"

text \<open>\<^verbatim>\<open>n - 1\<close>.\<close>

fun num_pred :: "number \<Rightarrow> number" where
  "num_pred (Finite i) = Finite (i - 1)"
| "num_pred n = n"

text \<open>\<^verbatim>\<open>n + 1\<close>.\<close>

fun num_succ :: "number \<Rightarrow> number" where
  "num_succ (Finite i) = Finite (i + 1)"
| "num_succ n = n"

text \<open>Strings compare by their code units, left to right.\<close>

fun string_less :: "string \<Rightarrow> string \<Rightarrow> bool" where
  "string_less [] [] = False"
| "string_less [] (_ # _) = True"
| "string_less (_ # _) [] = False"
| "string_less (a # as) (b # bs) =
     ((of_char a :: nat) < of_char b \<or> (a = b \<and> string_less as bs))"

fun digits_of :: "nat \<Rightarrow> string" where
  "digits_of n =
     (if n < 10 then [''0123456789'' ! n]
      else digits_of (n div 10) @ [''0123456789'' ! (n mod 10)])"

declare digits_of.simps [simp del]

fun number_to_string :: "number \<Rightarrow> string" where
  "number_to_string NaN = ''NaN''"
| "number_to_string NegInfinity = ''-Infinity''"
| "number_to_string PosInfinity = ''Infinity''"
| "number_to_string (Finite i) =
     (if i < 0 then CHR ''-'' # digits_of (nat (- i)) else digits_of (nat i))"

fun join :: "string \<Rightarrow> string list \<Rightarrow> string" where
  "join sep [] = []"
| "join sep [s] = s"
| "join sep (s # t # ss) = s @ sep @ join sep (t # ss)"

text \<open>
  ToString. An array is its elements joined by commas, \<^verbatim>\<open>null\<close> and \<^verbatim>\<open>undefined\<close>
  elements as the empty string; a plain object is \<^verbatim>\<open>[object Object]\<close>.
\<close>

fun to_string :: "jsval \<Rightarrow> string" where
  "to_string JUndefined = ''undefined''"
| "to_string JNull = ''null''"
| "to_string (JBool b) = (if b then ''true'' else ''false'')"
| "to_string (JNumber n) = number_to_string n"
| "to_string (JString s) = s"
| "to_string (JArray xs) =
     join '','' (map (\<lambda>x. if x = JUndefined \<or> x = JNull then [] else to_string x) xs)"
| "to_string (JObject _) = ''[object Object]''"

definition is_space :: "char \<Rightarrow> bool" where
  "is_space c = (c \<in> set [CHR '' '', CHR 0x09, CHR 0x0A, CHR 0x0B, CHR 0x0C, CHR 0x0D])"

definition is_digit :: "char \<Rightarrow> bool" where
  "is_digit c = (c \<in> set ''0123456789'')"

definition trim :: "string \<Rightarrow> string" where
  "trim s = rev (dropWhile is_space (rev (dropWhile is_space s)))"

definition digits_value :: "string \<Rightarrow> int" where
  "digits_value ds = foldl (\<lambda>acc c. 10 * acc + (int (of_char c) - 48)) 0 ds"

text \<open>
  StringToNumber, for the literals whose value the number model holds: the empty string,
  a signed \<^verbatim>\<open>Infinity\<close> and a signed run of decimal digits, white space around them
  ignored. A literal with a fraction, an exponent or a radix prefix denotes a number
  outside the model; the model reads it as \<^verbatim>\<open>NaN\<close>, which is what every other string is.
\<close>

definition unsigned_to_number :: "string \<Rightarrow> number" where
  "unsigned_to_number s =
     (if s = ''Infinity'' then PosInfinity
      else if s \<noteq> [] \<and> list_all is_digit s then Finite (digits_value s)
      else NaN)"

fun num_neg :: "number \<Rightarrow> number" where
  "num_neg NaN = NaN"
| "num_neg NegInfinity = PosInfinity"
| "num_neg PosInfinity = NegInfinity"
| "num_neg (Finite i) = Finite (- i)"

definition string_to_number :: "string \<Rightarrow> number" where
  "string_to_number s =
     (case trim s of
        [] \<Rightarrow> Finite 0
      | c # cs \<Rightarrow>
          if c = CHR ''-'' then num_neg (unsigned_to_number cs)
          else if c = CHR ''+'' then unsigned_to_number cs
          else unsigned_to_number (c # cs))"

text \<open>ToNumber, which unary \<^verbatim>\<open>+\<close> applies; arrays and objects go through ToString.\<close>

fun to_number :: "jsval \<Rightarrow> number" where
  "to_number JUndefined = NaN"
| "to_number JNull = Finite 0"
| "to_number (JBool b) = Finite (if b then 1 else 0)"
| "to_number (JNumber n) = n"
| "to_number (JString s) = string_to_number s"
| "to_number (JArray xs) = string_to_number (to_string (JArray xs))"
| "to_number (JObject ps) = string_to_number (to_string (JObject ps))"

subsection \<open>Comparisons\<close>

text \<open>
  \<^verbatim>\<open>a === b\<close>. Two numbers are equal when neither is \<^verbatim>\<open>NaN\<close>. Object identity is not
  part of the model: every array or object that reaches a comparison in this program
  was read from storage or built by the caller on its own, so an array or object is
  taken to differ from every other value.
\<close>

fun strict_equal :: "jsval \<Rightarrow> jsval \<Rightarrow> bool" where
  "strict_equal (JNumber a) (JNumber b) = (a \<noteq> NaN \<and> a = b)"
| "strict_equal (JArray _) _ = False"
| "strict_equal (JObject _) _ = False"
| "strict_equal a b = (a = b)"

text \<open>SameValueZero, used by \<^verbatim>\<open>Array.prototype.includes\<close> and by \<^verbatim>\<open>Map\<close>: \<^verbatim>\<open>NaN\<close> is itself.\<close>

fun same_value_zero :: "jsval \<Rightarrow> jsval \<Rightarrow> bool" where
  "same_value_zero (JArray _) _ = False"
| "same_value_zero (JObject _) _ = False"
| "same_value_zero a b = (a = b)"

definition array_includes :: "jsval list \<Rightarrow> jsval \<Rightarrow> bool" where
  "array_includes xs v = list_ex (\<lambda>x. same_value_zero x v) xs"

text \<open>
  IsLessThan of the language definition: \<^verbatim>\<open>None\<close> is its \<^verbatim>\<open>undefined\<close> (an operand is
  \<^verbatim>\<open>NaN\<close>). Arrays and objects are compared by their strings.
\<close>

fun to_primitive :: "jsval \<Rightarrow> jsval" where
  "to_primitive (JArray xs) = JString (to_string (JArray xs))"
| "to_primitive (JObject ps) = JString (to_string (JObject ps))"
| "to_primitive v = v"

definition is_less_than :: "jsval \<Rightarrow> jsval \<Rightarrow> bool option" where
  "is_less_than a b =
     (case (to_primitive a, to_primitive b) of
        (JString s, JString t) \<Rightarrow> Some (string_less s t)
      | (pa, pb) \<Rightarrow>
          let na = to_number pa; nb = to_number pb
          in if na = NaN \<or> nb = NaN then None else Some (num_less na nb))"

text \<open>\<^verbatim>\<open>a >= b\<close> and \<^verbatim>\<open>a <= b\<close>.\<close>

definition js_ge :: "jsval \<Rightarrow> jsval \<Rightarrow> bool" where
  "js_ge a b = (is_less_than a b = Some False)"

definition js_le :: "jsval \<Rightarrow> jsval \<Rightarrow> bool" where
  "js_le a b = (is_less_than b a = Some False)"

section \<open>The storage backend\<close>

text \<open>
  The program runs on IndexedDB and \<^verbatim>\<open>browser.storage\<close>. This section is the part of
  those interfaces that the program calls: keys and their order, object stores with
  in-line keys and key generators, indexes, and transactions.
\<close>

subsection \<open>Keys\<close>

datatype key = KNumber number | KString string | KArray "key list"

text \<open>A value is a valid key when it is a number other than \<^verbatim>\<open>NaN\<close>, a string, or an array of valid keys.\<close>

fun to_key :: "jsval \<Rightarrow> key option" where
  "to_key (JNumber n) = (if n = NaN then None else Some (KNumber n))"
| "to_key (JString s) = Some (KString s)"
| "to_key (JArray xs) = map_option KArray (those (map to_key xs))"
| "to_key _ = None"

fun of_key :: "key \<Rightarrow> jsval" where
  "of_key (KNumber n) = JNumber n"
| "of_key (KString s) = JString s"
| "of_key (KArray ks) = JArray (map of_key ks)"

text \<open>Keys are ordered: numbers before strings before arrays, arrays item by item.\<close>

fun key_less :: "key \<Rightarrow> key \<Rightarrow> bool" and keys_less :: "key list \<Rightarrow> key list \<Rightarrow> bool" where
  "key_less (KNumber a) (KNumber b) = num_less a b"
| "key_less (KNumber _) (KString _) = True"
| "key_less (KNumber _) (KArray _) = True"
| "key_less (KString a) (KString b) = string_less a b"
| "key_less (KString _) (KNumber _) = False"
| "key_less (KString _) (KArray _) = True"
| "key_less (KArray a) (KArray b) = keys_less a b"
| "key_less (KArray _) (KNumber _) = False"
| "key_less (KArray _) (KString _) = False"
| "keys_less [] [] = False"
| "keys_less [] (_ # _) = True"
| "keys_less (_ # _) [] = False"
| "keys_less (x # xs) (y # ys) = (key_less x y \<or> (x = y \<and> keys_less xs ys))"

datatype key_path = Single string | Compound "string list"

text \<open>Evaluating a key path on a value fails on a property that is missing or \<^verbatim>\<open>undefined\<close>.\<close>

definition evaluate_name :: "obj \<Rightarrow> string \<Rightarrow> jsval option" where
  "evaluate_name v name =
     (case map_of v name of
        None \<Rightarrow> None
      | Some x \<Rightarrow> if x = JUndefined then None else Some x)"

fun evaluate_key_path :: "key_path \<Rightarrow> obj \<Rightarrow> jsval option" where
  "evaluate_key_path (Single name) v = evaluate_name v name"
| "evaluate_key_path (Compound names) v = map_option JArray (those (map (evaluate_name v) names))"

datatype extracted = Failure | Invalid | Key key

definition extract_key :: "key_path \<Rightarrow> obj \<Rightarrow> extracted" where
  "extract_key kp v =
     (case evaluate_key_path kp v of
        None \<Rightarrow> Failure
      | Some x \<Rightarrow> (case to_key x of None \<Rightarrow> Invalid | Some k \<Rightarrow> Key k))"

subsection \<open>Object stores and indexes\<close>

datatype error =
    TypeError
  | DataError
  | NotFoundError
  | ConstraintError
  | ReadOnlyError
  | VersionError
  | AbortError
  | BackendError
  | Thrown string

record index_spec =
  index_key_path :: key_path
  multiEntry :: bool

text \<open>
  An object store of this program has an in-line key (\<^verbatim>\<open>keyPath\<close>) and a key generator
  (\<^verbatim>\<open>autoIncrement\<close>). Its records are kept in key order. The content of an index is
  derived from the records when a cursor is opened on it.
\<close>

record object_store =
  keyPath :: string
  autoIncrement :: bool
  generator :: int
  indexes :: "(string \<times> index_spec) list"
  records :: "(key \<times> obj) list"

text \<open>Storing a record under a key: the record with that key is replaced, a new key goes to its place in the order.\<close>

fun insert_record :: "key \<Rightarrow> obj \<Rightarrow> (key \<times> obj) list \<Rightarrow> (key \<times> obj) list" where
  "insert_record k v [] = [(k, v)]"
| "insert_record k v ((k', v') # rs) =
     (if k = k' then (k, v) # rs
      else if key_less k k' then (k, v) # (k', v') # rs
      else (k', v') # insert_record k v rs)"

definition max_generator :: int where
  "max_generator = 2 ^ 53"

text \<open>A number used as a key pushes the key generator past it.\<close>

fun update_generator :: "key \<Rightarrow> int \<Rightarrow> int" where
  "update_generator (KNumber (Finite i)) g =
     (let v = min i max_generator
      in if g \<le> v then v + 1 else g)"
| "update_generator (KNumber PosInfinity) g = (if g \<le> max_generator then max_generator + 1 else g)"
| "update_generator _ g = g"

text \<open>
  What \<^verbatim>\<open>put\<close> checks before it queues its request: the value's key is valid, or it is
  missing and the store generates one. Otherwise it throws a \<^verbatim>\<open>DataError\<close>.
\<close>

definition put_check :: "object_store \<Rightarrow> obj \<Rightarrow> error option" where
  "put_check st v =
     (case extract_key (Single (keyPath st)) v of
        Key _ \<Rightarrow> None
      | Invalid \<Rightarrow> Some DataError
      | Failure \<Rightarrow> if autoIncrement st then None else Some DataError)"

text \<open>
  The request itself: a missing key is generated and written into the value (the request
  fails when the generator is used up); the record is stored over any record of that key.
\<close>

definition put_request :: "object_store \<Rightarrow> obj \<Rightarrow> error + object_store" where
  "put_request st v =
     (case extract_key (Single (keyPath st)) v of
        Key k \<Rightarrow>
          Inr (st\<lparr>generator := (if autoIncrement st then update_generator k (generator st) else generator st),
                  records := insert_record k v (records st)\<rparr>)
      | _ \<Rightarrow>
          if max_generator < generator st then Inl ConstraintError
          else
            let k = KNumber (Finite (generator st))
            in Inr (st\<lparr>generator := generator st + 1,
                       records := insert_record k (set_prop v (keyPath st) (of_key k)) (records st)\<rparr>))"

text \<open>The keys a record has in an index: none when its key path gives no valid key.\<close>

definition index_keys :: "index_spec \<Rightarrow> obj \<Rightarrow> key list" where
  "index_keys ix v =
     (case extract_key (index_key_path ix) v of
        Key (KArray ks) \<Rightarrow>
          if multiEntry ix then remdups ks else [KArray ks]
      | Key k \<Rightarrow> [k]
      | _ \<Rightarrow>
          if multiEntry ix then
            (case evaluate_key_path (index_key_path ix) v of
               Some (JArray xs) \<Rightarrow> remdups (List.map_filter to_key xs)
             | _ \<Rightarrow> [])
          else [])"

fun entry_less :: "(key \<times> key \<times> obj) \<Rightarrow> (key \<times> key \<times> obj) \<Rightarrow> bool" where
  "entry_less (ik, pk, _) (ik', pk', _) = (key_less ik ik' \<or> (ik = ik' \<and> key_less pk pk'))"

fun insort_by :: "('a \<Rightarrow> 'a \<Rightarrow> bool) \<Rightarrow> 'a \<Rightarrow> 'a list \<Rightarrow> 'a list" where
  "insort_by lt x [] = [x]"
| "insort_by lt x (y # ys) = (if lt y x then y # insort_by lt x ys else x # y # ys)"

definition sort_by :: "('a \<Rightarrow> 'a \<Rightarrow> bool) \<Rightarrow> 'a list \<Rightarrow> 'a list" where
  "sort_by lt xs = foldr (insort_by lt) xs []"

text \<open>The entries of an index, in the order a cursor walks them: by index key, then by primary key.\<close>

definition index_entries :: "index_spec \<Rightarrow> (key \<times> obj) list \<Rightarrow> (key \<times> key \<times> obj) list" where
  "index_entries ix rs =
     sort_by entry_less (concat (map (\<lambda>(pk, v). map (\<lambda>ik. (ik, pk, v)) (index_keys ix v)) rs))"

record idb =
  version :: nat
  stores :: "(string \<times> object_store) list"


type_synonym store_list = "(string \<times> object_store) list"

definition find_store :: "store_list \<Rightarrow> string \<Rightarrow> object_store option" where
  "find_store ss name = map_of ss name"

fun update_store :: "string \<Rightarrow> object_store \<Rightarrow> store_list \<Rightarrow> store_list" where
  "update_store name st [] = [(name, st)]"
| "update_store name st ((n, st') # ss) =
     (if n = name then (n, st) # ss else (n, st') # update_store name st ss)"

text \<open>\<^verbatim>\<open>db.createObjectStore(name, {keyPath, autoIncrement})\<close>: the name must be new.\<close>

definition createObjectStore :: "string \<Rightarrow> string \<Rightarrow> bool \<Rightarrow> store_list \<Rightarrow> error + store_list" where
  "createObjectStore name kp auto ss =
     (if find_store ss name \<noteq> None then Inl ConstraintError
      else Inr (ss @ [(name, \<lparr>keyPath = kp, autoIncrement = auto, generator = 1,
                              indexes = [], records = []\<rparr>)]))"

text \<open>\<^verbatim>\<open>tx.objectStore(name).createIndex(index, keyPath, {multiEntry})\<close>: the index name must be new in its store.\<close>

definition createIndex :: "string \<Rightarrow> string \<Rightarrow> key_path \<Rightarrow> bool \<Rightarrow> store_list \<Rightarrow> error + store_list" where
  "createIndex name iname kp multi ss =
     (case find_store ss name of
        None \<Rightarrow> Inl NotFoundError
      | Some st \<Rightarrow>
          if map_of (indexes st) iname \<noteq> None then Inl ConstraintError
          else Inr (update_store name
                 (st\<lparr>indexes := indexes st @ [(iname, \<lparr>index_key_path = kp, multiEntry = multi\<rparr>)]\<rparr>) ss))"

subsection \<open>Transactions\<close>

text \<open>
  A transaction works on a copy of the stores. A method that throws leaves the
  transaction as it was; a request that fails marks the transaction as failed, and a
  failed transaction is rolled back when it finishes. \<^verbatim>\<open>tx_io\<close> is the environment:
  whether the backend reports an error on the requests of this transaction.
\<close>

record txn =
  tx_stores :: store_list
  tx_scope :: "string list"
  tx_readwrite :: bool
  tx_io :: bool
  tx_failed :: "error option"

text \<open>\<^verbatim>\<open>db.transaction(names, mode)\<close> throws when a store of the scope does not exist.\<close>

definition begin_transaction :: "idb \<Rightarrow> bool \<Rightarrow> string list \<Rightarrow> bool \<Rightarrow> error + txn" where
  "begin_transaction db io names rw =
     (if list_all (\<lambda>n. find_store (stores db) n \<noteq> None) names
      then Inr \<lparr>tx_stores = stores db, tx_scope = names, tx_readwrite = rw, tx_io = io,
                tx_failed = None\<rparr>
      else Inl NotFoundError)"

text \<open>A request placed on a transaction: it does nothing once the transaction has failed.\<close>

definition tx_request :: "txn \<Rightarrow> string \<Rightarrow> (object_store \<Rightarrow> error + object_store) \<Rightarrow> object_store \<Rightarrow> txn" where
  "tx_request tx name req st =
     (if tx_failed tx \<noteq> None then tx
      else if tx_io tx then tx\<lparr>tx_failed := Some BackendError\<rparr>
      else (case req st of
              Inl e \<Rightarrow> tx\<lparr>tx_failed := Some e\<rparr>
            | Inr st' \<Rightarrow> tx\<lparr>tx_stores := update_store name st' (tx_stores tx)\<rparr>))"

text \<open>\<^verbatim>\<open>tx.objectStore(name).put(value)\<close>.\<close>

definition tx_put :: "txn \<Rightarrow> string \<Rightarrow> obj \<Rightarrow> error + txn" where
  "tx_put tx name v =
     (if name \<notin> set (tx_scope tx) then Inl NotFoundError
      else case find_store (tx_stores tx) name of
        None \<Rightarrow> Inl NotFoundError
      | Some st \<Rightarrow>
          if \<not> tx_readwrite tx then Inl ReadOnlyError
          else (case put_check st v of
                  Some e \<Rightarrow> Inl e
                | None \<Rightarrow> Inr (tx_request tx name (\<lambda>st. put_request st v) st)))"

text \<open>\<^verbatim>\<open>tx.objectStore(name).clear()\<close>.\<close>

definition tx_clear :: "txn \<Rightarrow> string \<Rightarrow> error + txn" where
  "tx_clear tx name =
     (if name \<notin> set (tx_scope tx) then Inl NotFoundError
      else case find_store (tx_stores tx) name of
        None \<Rightarrow> Inl NotFoundError
      | Some st \<Rightarrow>
          if \<not> tx_readwrite tx then Inl ReadOnlyError
          else Inr (tx_request tx name (\<lambda>st. Inr (st\<lparr>records := []\<rparr>)) st))"

text \<open>
  How a transaction ends once no request is left: the error of its failed request and
  the database as it was, or no error and the database with the transaction's writes.
\<close>

definition finish :: "idb \<Rightarrow> txn \<Rightarrow> error option \<times> idb" where
  "finish db tx =
     (case tx_failed tx of
        Some e \<Rightarrow> (Some e, db)
      | None \<Rightarrow> (None, db\<lparr>stores := tx_stores tx\<rparr>))"

subsection \<open>Promises\<close>

text \<open>
  What the caller of an \<^verbatim>\<open>async\<close> function sees of its promise: fulfilled with a value,
  rejected with an error, or never settled.
\<close>

datatype 'a promise = Fulfilled 'a | Rejected error | Pending


section \<open>The Database object\<close>

text \<open>
  The state the program works on: the fields of \<^verbatim>\<open>Database\<close> (\<^verbatim>\<open>_db\<close>, here whether
  the connection is set, and \<^verbatim>\<open>_feeds\<close>), the database \<^verbatim>\<open>brief\<close> on disk, the feed lists
  held under the key \<^verbatim>\<open>feeds\<close> of \<^verbatim>\<open>browser.storage.local\<close> and \<^verbatim>\<open>browser.storage.sync\<close>
  (\<^verbatim>\<open>None\<close>: the key is not set), whether the backend reports errors, and the calls made
  to storage so far. Feeds and entries are plain objects. \<^verbatim>\<open>console.log\<close> is left out.
\<close>

datatype event =
    StorageGet string
  | StorageSet string
  | OpenDatabase
  | BeginTransaction "string list"
  | OpenIndexCursor string

record database =
  priv_db :: bool
  priv_feeds :: "obj list"
  disk :: idb
  local_feeds :: "obj list option"
  sync_feeds :: "obj list option"
  io_error :: bool
  events :: "event list"

definition emit :: "event list \<Rightarrow> database \<Rightarrow> database" where
  "emit evs s = s\<lparr>events := events s @ evs\<rparr>"

subsection \<open>upgrade\<close>

text \<open>Statements that may throw, run in order; the first exception ends the run.\<close>

fun run_all :: "('s \<Rightarrow> error + 's) list \<Rightarrow> 's \<Rightarrow> error + 's" where
  "run_all [] x = Inr x"
| "run_all (f # fs) x = (case f x of Inl e \<Rightarrow> Inl e | Inr y \<Rightarrow> run_all fs y)"

text \<open>
  The cursor of lines 79 to 88 visits every record of the entries store; for each it
  sets \<^verbatim>\<open>read\<close> to \<^verbatim>\<open>value.read ? 1 : 0\<close> and writes the record back with \<^verbatim>\<open>cursor.update\<close>,
  which throws when the value's key is not the key of the record it replaces.
\<close>

definition rewrite_read :: "obj \<Rightarrow> obj" where
  "rewrite_read v =
     set_prop v ''read'' (JNumber (Finite (if truthy (get_prop v ''read'') then 1 else 0)))"

fun rewrite_records :: "string \<Rightarrow> (key \<times> obj) list \<Rightarrow> error + (key \<times> obj) list" where
  "rewrite_records kp [] = Inr []"
| "rewrite_records kp ((k, v) # rs) =
     (if extract_key (Single kp) (rewrite_read v) \<noteq> Key k then Inl DataError
      else case rewrite_records kp rs of
             Inl e \<Rightarrow> Inl e
           | Inr rs' \<Rightarrow> Inr ((k, rewrite_read v) # rs'))"

definition rewrite_store :: "object_store \<Rightarrow> error + object_store" where
  "rewrite_store st =
     (case rewrite_records (keyPath st) (records st) of
        Inl e \<Rightarrow> Inl e
      | Inr rs \<Rightarrow>
          Inr (st\<lparr>generator :=
                    (if autoIncrement st then fold update_generator (map fst rs) (generator st)
                     else generator st),
                  records := rs\<rparr>))"

definition rewrite_entries :: "store_list \<Rightarrow> error + store_list" where
  "rewrite_entries ss =
     (case find_store ss ''entries'' of
        None \<Rightarrow> Inl NotFoundError
      | Some st \<Rightarrow>
          (case rewrite_store st of
             Inl e \<Rightarrow> Inl e
           | Inr st' \<Rightarrow> Inr (update_store ''entries'' st' ss)))"

text \<open>The three \<^verbatim>\<open>case\<close> blocks of the \<^verbatim>\<open>switch\<close> in \<^verbatim>\<open>upgrade\<close>.\<close>

definition case_0 :: "store_list \<Rightarrow> error + store_list" where
  "case_0 ss = run_all
     [createObjectStore ''revisions'' ''id'' True,
      createObjectStore ''entries'' ''id'' True,
      createIndex ''entries'' ''date'' (Single ''date'') False,
      createIndex ''entries'' ''feedID_date'' (Compound [''feedID'', ''date'']) False,
      createIndex ''entries'' ''primaryHash'' (Single ''primaryHash'') False,
      createIndex ''entries'' ''bookmarkID'' (Single ''bookmarkID'') False,
      createIndex ''entries'' ''entryURL'' (Single ''entryURL'') False,
      createIndex ''entries'' ''tagName'' (Single ''tags'') True] ss"

definition case_10 :: "store_list \<Rightarrow> error + store_list" where
  "case_10 ss = createObjectStore ''feeds'' ''feedID'' True ss"

definition case_20 :: "store_list \<Rightarrow> error + store_list" where
  "case_20 ss = run_all
     [createIndex ''entries'' ''deleted_read_feedID_date''
        (Compound [''deleted'', ''read'', ''feedID'', ''date'']) False,
      rewrite_entries] ss"

definition upgrade_cases :: "(nat \<times> (store_list \<Rightarrow> error + store_list)) list" where
  "upgrade_cases = [(0, case_0), (10, case_10), (20, case_20)]"

text \<open>
  A \<^verbatim>\<open>switch\<close> without \<^verbatim>\<open>break\<close> and without \<^verbatim>\<open>default\<close>: control enters at the first
  case whose label is the value switched on, and runs every block from there on; when no
  label is the value, no block runs.
\<close>

definition switch_from :: "nat \<Rightarrow> (nat \<times> 'b) list \<Rightarrow> (nat \<times> 'b) list" where
  "switch_from x cases = dropWhile (\<lambda>(label, _). label \<noteq> x) cases"

definition upgrade_steps :: "nat \<Rightarrow> nat list" where
  "upgrade_steps oldVersion = map fst (switch_from oldVersion upgrade_cases)"

definition upgrade :: "nat \<Rightarrow> store_list \<Rightarrow> error + store_list" where
  "upgrade oldVersion ss = run_all (map snd (switch_from oldVersion upgrade_cases)) ss"

text \<open>
  \<^verbatim>\<open>indexedDB.open("brief", {version: 30})\<close>: a database on disk newer than 30 is
  refused; an older one is upgraded, and an exception in \<^verbatim>\<open>upgrade\<close> aborts the upgrade
  and the opening, leaving the disk as it was.
\<close>

definition open_database :: "idb \<Rightarrow> bool \<Rightarrow> error + idb" where
  "open_database db io =
     (if io then Inl BackendError
      else if 30 < version db then Inl VersionError
      else if version db < 30 then
        (case upgrade (version db) (stores db) of
           Inl e \<Rightarrow> Inl AbortError
         | Inr ss \<Rightarrow> Inr \<lparr>version = 30, stores = ss\<rparr>)
      else Inr db)"

subsection \<open>_putEntry and putEntries\<close>

definition ENTRY_FIELDS :: "string list" where
  "ENTRY_FIELDS =
     [''id'', ''feedID'',
      ''read'', ''markedUnreadOnUpdate'', ''starred'', ''tags'', ''deleted'',
      ''providedID'', ''entryURL'', ''primaryHash'', ''secondaryHash'',
      ''date'']"

definition REVISION_FIELDS :: "string list" where
  "REVISION_FIELDS = [''id'', ''authors'', ''title'', ''content'', ''updated'']"

text \<open>\<^verbatim>\<open>for(let name of names) dst[name] = src[name]\<close>.\<close>

definition copy_fields :: "string list \<Rightarrow> obj \<Rightarrow> obj \<Rightarrow> obj" where
  "copy_fields names src dst = fold (\<lambda>name ob. set_prop ob name (get_prop src name)) names dst"

text \<open>
  \<^verbatim>\<open>s.split(sep)\<close>: the pieces of \<^verbatim>\<open>s\<close> between the occurrences of \<^verbatim>\<open>sep\<close>, found from
  the left; \<^verbatim>\<open>cur\<close> is the piece being read. An empty separator splits between all
  characters.
\<close>

function split_on :: "string \<Rightarrow> string \<Rightarrow> string \<Rightarrow> string list" where
  "split_on sep cur s =
     (if sep = [] then map (\<lambda>c. [c]) s
      else if s = [] then [cur]
      else if take (length sep) s = sep then cur # split_on sep [] (drop (length sep) s)
      else split_on sep (cur @ [hd s]) (tl s))"
  by pat_completeness auto
termination
  by (relation "measure (\<lambda>(sep, cur, s). length s)") auto

declare split_on.simps [simp del]

text \<open>\<^verbatim>\<open>(tags || '').split(', ')\<close>: a truthy value that is not a string has no \<^verbatim>\<open>split\<close>.\<close>

definition split_tags :: "jsval \<Rightarrow> error + jsval" where
  "split_tags t =
     (case (if truthy t then t else JString []) of
        JString s \<Rightarrow> Inr (JArray (map JString (split_on '', '' [] s)))
      | _ \<Rightarrow> Inl TypeError)"

definition revision_record :: "obj \<Rightarrow> obj" where
  "revision_record origEntry = copy_fields REVISION_FIELDS origEntry []"

definition entry_record :: "obj \<Rightarrow> error + obj" where
  "entry_record origEntry =
     (let entry = copy_fields ENTRY_FIELDS origEntry [];
          entry = set_prop entry ''revisions'' (JArray [JObject [(''id'', get_prop origEntry ''id'')]]);
          entry = set_prop entry ''bookmarked''
                    (JBool (\<not> strict_equal (get_prop origEntry ''bookmarkID'') (JNumber (Finite (- 1)))))
      in case split_tags (get_prop entry ''tags'') of
           Inl e \<Rightarrow> Inl e
         | Inr tags \<Rightarrow> Inr (set_prop entry ''tags'' tags))"

text \<open>
  \<^verbatim>\<open>_putEntry(origEntry, tx)\<close> returns the exception it threw, if any, and the
  transaction with the requests it placed before that.
\<close>

definition priv_putEntry :: "obj \<Rightarrow> txn \<Rightarrow> error option \<times> txn" where
  "priv_putEntry origEntry tx =
     (case entry_record origEntry of
        Inl e \<Rightarrow> (Some e, tx)
      | Inr entry \<Rightarrow>
          (case tx_put tx ''revisions'' (revision_record origEntry) of
             Inl e \<Rightarrow> (Some e, tx)
           | Inr tx1 \<Rightarrow>
               (case tx_put tx1 ''entries'' entry of
                  Inl e \<Rightarrow> (Some e, tx1)
                | Inr tx2 \<Rightarrow> (None, tx2))))"

text \<open>The loop of \<^verbatim>\<open>putEntries\<close>: an exception ends it.\<close>

fun put_each :: "obj list \<Rightarrow> txn \<Rightarrow> error option \<times> txn" where
  "put_each [] tx = (None, tx)"
| "put_each (e # es) tx =
     (case priv_putEntry e tx of
        (Some err, tx') \<Rightarrow> (Some err, tx')
      | (None, tx') \<Rightarrow> put_each es tx')"

text \<open>
  \<^verbatim>\<open>putEntries(entries)\<close>. An exception in the loop rejects the promise at once; nothing
  aborts the transaction, which then finishes with the requests placed so far. Without
  an exception the promise follows the transaction (\<^verbatim>\<open>_transactionPromise\<close>).
\<close>

definition putEntries :: "obj list \<Rightarrow> database \<Rightarrow> unit promise \<times> database" where
  "putEntries es s =
     (if \<not> priv_db s then (Rejected TypeError, s)
      else case begin_transaction (disk s) (io_error s) [''revisions'', ''entries''] True of
        Inl e \<Rightarrow> (Rejected e, s)
      | Inr tx \<Rightarrow>
          let s1 = emit [BeginTransaction [''revisions'', ''entries'']] s
          in (case put_each es tx of
                (Some e, tx') \<Rightarrow> (Rejected e, s1\<lparr>disk := snd (finish (disk s1) tx')\<rparr>)
              | (None, tx') \<Rightarrow>
                  (case finish (disk s1) tx' of
                     (Some e, db) \<Rightarrow> (Rejected e, s1\<lparr>disk := db\<rparr>)
                   | (None, db) \<Rightarrow> (Fulfilled (), s1\<lparr>disk := db\<rparr>))))"

text \<open>\<^verbatim>\<open>objectStore.get(key)\<close> on a committed store: the record of that key.\<close>

definition get_record :: "idb \<Rightarrow> string \<Rightarrow> jsval \<Rightarrow> obj option" where
  "get_record db name v =
     (case (find_store (stores db) name, to_key v) of
        (Some st, Some k) \<Rightarrow> map_of (records st) k
      | _ \<Rightarrow> None)"

subsection \<open>The feed list and its backups\<close>

text \<open>
  \<^verbatim>\<open>_saveFeedBackups\<close>: each feed is copied without its \<^verbatim>\<open>favicon\<close> and without the
  properties that are \<^verbatim>\<open>null\<close>; the copies are written to both storage areas.
\<close>

definition minimize :: "obj \<Rightarrow> obj" where
  "minimize feed =
     fold (\<lambda>key m.
            let m = (if key = ''favicon'' then delete_prop m ''favicon'' else m)
            in if strict_equal (get_prop m key) JNull then delete_prop m key else m)
          (map fst feed) feed"

definition priv_saveFeedBackups :: "obj list \<Rightarrow> database \<Rightarrow> database" where
  "priv_saveFeedBackups fs s =
     (let minimizedFeeds = map minimize fs
      in emit [StorageSet ''local'', StorageSet ''sync'']
           (s\<lparr>local_feeds := Some minimizedFeeds, sync_feeds := Some minimizedFeeds\<rparr>))"

fun put_feeds :: "obj list \<Rightarrow> txn \<Rightarrow> error option \<times> txn" where
  "put_feeds [] tx = (None, tx)"
| "put_feeds (feed # fs) tx =
     (case tx_put tx ''feeds'' feed of
        Inl e \<Rightarrow> (Some e, tx)
      | Inr tx' \<Rightarrow> put_feeds fs tx')"

definition saveFeeds :: "obj list \<Rightarrow> database \<Rightarrow> unit promise \<times> database" where
  "saveFeeds fs s =
     (if \<not> priv_db s then (Fulfilled (), s)
      else case begin_transaction (disk s) (io_error s) [''feeds''] True of
        Inl e \<Rightarrow> (Rejected e, s)
      | Inr tx \<Rightarrow>
          let s1 = emit [BeginTransaction [''feeds'']] s
          in (case tx_clear tx ''feeds'' of
                Inl e \<Rightarrow> (Rejected e, s1)
              | Inr tx1 \<Rightarrow>
                  (case put_feeds fs tx1 of
                     (Some e, tx2) \<Rightarrow> (Rejected e, s1\<lparr>disk := snd (finish (disk s1) tx2)\<rparr>)
                   | (None, tx2) \<Rightarrow>
                       (case finish (disk s1) tx2 of
                          (Some e, db) \<Rightarrow> (Rejected e, s1\<lparr>disk := db\<rparr>)
                        | (None, db) \<Rightarrow>
                            (Fulfilled (), priv_saveFeedBackups fs (s1\<lparr>disk := db\<rparr>))))))"

text \<open>
  \<^verbatim>\<open>storage.get({feeds})\<close>: the list under the key \<^verbatim>\<open>feeds\<close>, or the default given.
\<close>

definition storage_get :: "obj list option \<Rightarrow> obj list \<Rightarrow> obj list" where
  "storage_get area dflt = (case area of Some fs \<Rightarrow> fs | None \<Rightarrow> dflt)"

text \<open>
  \<^verbatim>\<open>loadFeeds()\<close>. The call of \<^verbatim>\<open>saveFeeds\<close> is not awaited: its requests are placed
  before \<^verbatim>\<open>loadFeeds\<close> goes on, and the model lets it run to its end there.
\<close>

definition loadFeeds :: "database \<Rightarrow> unit promise \<times> database" where
  "loadFeeds s =
     (if \<not> priv_db s then (Rejected TypeError, s)
      else case begin_transaction (disk s) (io_error s) [''feeds''] False of
        Inl e \<Rightarrow> (Rejected e, s)
      | Inr tx \<Rightarrow>
          let s1 = emit [BeginTransaction [''feeds'']] s
          in if io_error s then (Rejected BackendError, s1)
             else
               (case find_store (tx_stores tx) ''feeds'' of
                  None \<Rightarrow> (Rejected NotFoundError, s1)
                | Some st \<Rightarrow>
                    let fs = map snd (records st)
                    in if length fs = 0 then
                         let s2 = emit [StorageGet ''local''] s1;
                             fs = storage_get (local_feeds s2) fs;
                             (fs, s3) =
                               (if length fs = 0
                                then (storage_get (sync_feeds s2) fs, emit [StorageGet ''sync''] s2)
                                else (fs, s2));
                             s4 = snd (saveFeeds fs s3)
                         in (Fulfilled (), s4\<lparr>priv_feeds := fs\<rparr>)
                       else (Fulfilled (), s1\<lparr>priv_feeds := fs\<rparr>)))"

subsection \<open>init\<close>

definition listEntries :: "database \<Rightarrow> key list promise \<times> database" where
  "listEntries s =
     (if \<not> priv_db s then (Rejected TypeError, s)
      else case begin_transaction (disk s) (io_error s) [''entries''] False of
        Inl e \<Rightarrow> (Rejected e, s)
      | Inr tx \<Rightarrow>
          let s1 = emit [BeginTransaction [''entries'']] s
          in if io_error s then (Rejected BackendError, s1)
             else
               (case find_store (tx_stores tx) ''entries'' of
                  None \<Rightarrow> (Rejected NotFoundError, s1)
                | Some st \<Rightarrow> (Fulfilled (map fst (records st)), s1)))"

text \<open>
  \<^verbatim>\<open>init()\<close>: nothing when the connection is set. Otherwise it reads the storage
  preference, opens the database (upgrading it), starts \<^verbatim>\<open>loadFeeds\<close> without awaiting it
  (the model lets it run to its end there) and lists the entries. The preference only
  selects the kind of storage asked of the browser, which the model does not hold.
\<close>

definition init :: "database \<Rightarrow> unit promise \<times> database" where
  "init s =
     (if priv_db s then (Fulfilled (), s)
      else
        let s1 = emit [StorageGet ''local'', OpenDatabase] s
        in (case open_database (disk s1) (io_error s1) of
              Inl e \<Rightarrow> (Rejected e, s1)
            | Inr db \<Rightarrow>
                let s2 = s1\<lparr>disk := db, priv_db := True\<rparr>;
                    s3 = snd (loadFeeds s2)
                in (case listEntries s3 of
                      (Fulfilled _, s4) \<Rightarrow> (Fulfilled (), s4)
                    | (Rejected e, s4) \<Rightarrow> (Rejected e, s4)
                    | (Pending, s4) \<Rightarrow> (Pending, s4))))"

section \<open>Query\<close>

text \<open>
  The properties of a \<^verbatim>\<open>Query\<close> object, after \<^verbatim>\<open>Object.assign(this, filters)\<close> over
  the defaults of the prototype. \<^verbatim>\<open>None\<close> is \<^verbatim>\<open>undefined\<close> for the properties that
  hold an array or a number.
\<close>

record query =
  entries :: "jsval list option"
  feeds :: "jsval list option"
  folders :: "jsval list option"
  tags :: "jsval list option"
  read :: jsval
  starred :: jsval
  deleted :: jsval
  searchString :: jsval
  startDate :: jsval
  endDate :: jsval
  limit :: "number option"
  offset :: "number option"
  sortOrder :: jsval
  sortDirection :: jsval
  includeHiddenFeeds :: bool
  includeFeedsExcludedFromGlobalViews :: bool

text \<open>\<^verbatim>\<open>Database.query()\<close>: the query whose properties are all the prototype's.\<close>

definition default_query :: query where
  "default_query =
     \<lparr>entries = None, feeds = None, folders = None, tags = None,
      read = JUndefined, starred = JUndefined, deleted = JUndefined,
      searchString = JUndefined, startDate = JUndefined, endDate = JUndefined,
      limit = None, offset = Some (Finite 0),
      sortOrder = JUndefined, sortDirection = JString ''desc'',
      includeHiddenFeeds = False, includeFeedsExcludedFromGlobalViews = True\<rparr>"

text \<open>The object \<^verbatim>\<open>_filters()\<close> returns, its nested objects \<^verbatim>\<open>entry\<close> and \<^verbatim>\<open>sort\<close> flattened.\<close>

record filters =
  filters_feeds :: "jsval list"
  entry_read :: jsval
  entry_starred :: jsval
  entry_deleted :: jsval
  entry_tags :: "jsval list option"
  fullTextSearch :: jsval
  sort_direction :: jsval
  sort_limit :: "number option"
  sort_offset :: "number option"
  sort_start :: jsval
  sort_end :: jsval

subsection \<open>The folder list\<close>

text \<open>\<^verbatim>\<open>childrenMap\<close>: a \<^verbatim>\<open>Map\<close> from a parent to the ids of its children, in insertion order.\<close>

type_synonym children_map = "(jsval \<times> jsval list) list"

definition map_get :: "children_map \<Rightarrow> jsval \<Rightarrow> jsval list option" where
  "map_get m k = map_option snd (find (\<lambda>(k', _). same_value_zero k' k) m)"

fun map_set :: "children_map \<Rightarrow> jsval \<Rightarrow> jsval list \<Rightarrow> children_map" where
  "map_set [] k v = [(k, v)]"
| "map_set ((k', v') # m) k v =
     (if same_value_zero k' k then (k', v) # m else (k', v') # map_set m k v)"

text \<open>\<^verbatim>\<open>childrenMap.get(k) || []\<close>.\<close>

definition children_of :: "children_map \<Rightarrow> jsval \<Rightarrow> jsval list" where
  "children_of m k = (case map_get m k of Some c \<Rightarrow> c | None \<Rightarrow> [])"

definition add_child :: "obj \<Rightarrow> children_map \<Rightarrow> children_map" where
  "add_child node m =
     (let parent = get_prop node ''parent'';
          children = children_of m parent
      in map_set m parent (children @ [get_prop node ''feedID'']))"

definition build_childrenMap :: "obj list \<Rightarrow> children_map" where
  "build_childrenMap db_feeds = fold add_child db_feeds []"

text \<open>
  The \<^verbatim>\<open>while\<close> loop of lines 373 to 378: \<^verbatim>\<open>pop\<close> takes the last of \<^verbatim>\<open>new_nodes\<close>,
  \<^verbatim>\<open>push\<close> adds at the end. The loop need not end; \<^verbatim>\<open>None\<close> is the run that does not.
\<close>

partial_function (option) expand_nodes :: "children_map \<Rightarrow> jsval list \<Rightarrow> jsval list \<Rightarrow> jsval list option" where
  "expand_nodes childrenMap nodes new_nodes =
     (if length new_nodes > 0 then
        (let node = last new_nodes;
             new_nodes = butlast new_nodes;
             nodes = nodes @ [node];
             children = children_of childrenMap node
         in expand_nodes childrenMap nodes (new_nodes @ children))
      else Some nodes)"

declare expand_nodes.simps [code]

text \<open>Lines 362 to 380: the feeds whose id is among the nodes the loop collected.\<close>

definition expand_folders :: "obj list \<Rightarrow> jsval list \<Rightarrow> obj list option" where
  "expand_folders db_feeds fl =
     map_option (\<lambda>nodes. filter (\<lambda>feed. array_includes nodes (get_prop feed ''feedID'')) db_feeds)
       (expand_nodes (build_childrenMap db_feeds) [] fl)"

subsection \<open>_filters and _searchEngine\<close>

text \<open>
  \<^verbatim>\<open>_filters()\<close> reads the feed list \<^verbatim>\<open>Database.feeds\<close>. It returns the filters or the
  exception it threw, and the query: \<^verbatim>\<open>new_nodes\<close> is the array \<^verbatim>\<open>this.folders\<close> itself,
  which the loop leaves empty.
\<close>

definition priv_filters :: "query \<Rightarrow> obj list \<Rightarrow> ((error + filters) \<times> query) option" where
  "priv_filters q db_feeds =
     (case (case folders q of
              None \<Rightarrow> Some (db_feeds, q)
            | Some fl \<Rightarrow> map_option (\<lambda>fs. (fs, q\<lparr>folders := Some []\<rparr>)) (expand_folders db_feeds fl)) of
        None \<Rightarrow> None
      | Some (active_feeds, q') \<Rightarrow>
          let (active_feeds, includeHidden) =
                (case feeds q of
                   None \<Rightarrow> (active_feeds, includeHiddenFeeds q)
                 | Some ids \<Rightarrow>
                     (filter (\<lambda>feed. array_includes ids (get_prop feed ''feedID'')) active_feeds, True));
              active_feeds =
                (if \<not> includeHidden
                 then filter (\<lambda>feed. \<not> truthy (get_prop feed ''hidden'')) active_feeds
                 else active_feeds);
              active_feeds =
                (if \<not> includeFeedsExcludedFromGlobalViews q
                 then filter (\<lambda>feed. \<not> truthy (get_prop feed ''omitInUnread'')) active_feeds
                 else active_feeds)
          in if \<not> strict_equal (sortOrder q) JUndefined \<and> \<not> strict_equal (sortOrder q) (JString ''date'')
             then Some (Inl (Thrown (''Invalid sort order: '' @ to_string (sortOrder q))), q')
             else Some (Inr \<lparr>filters_feeds = map (\<lambda>feed. get_prop feed ''feedID'') active_feeds,
                             entry_read = JNumber (to_number (read q)),
                             entry_starred = starred q,
                             entry_deleted = JNumber (to_number (deleted q)),
                             entry_tags = tags q,
                             fullTextSearch = searchString q,
                             sort_direction = sortDirection q,
                             sort_limit = limit q,
                             sort_offset = offset q,
                             sort_start = startDate q,
                             sort_end = endDate q\<rparr>, q'))"

definition is_substring :: "string \<Rightarrow> string \<Rightarrow> bool" where
  "is_substring t s = list_ex (\<lambda>i. take (length t) (drop i s) = t) [0..<Suc (length s)]"

text \<open>
  \<^verbatim>\<open>filters.entry.tags.some(tag => entry.tags.includes(tag))\<close>: on an array
  \<^verbatim>\<open>includes\<close> looks for the element, on a string for the substring; any other value
  of \<^verbatim>\<open>entry.tags\<close> has no \<^verbatim>\<open>includes\<close>. No tag, no call.
\<close>

definition tags_some :: "jsval list \<Rightarrow> jsval \<Rightarrow> error + bool" where
  "tags_some ts entry_tags_value =
     (if ts = [] then Inr False
      else case entry_tags_value of
        JArray xs \<Rightarrow> Inr (list_ex (\<lambda>tag. array_includes xs tag) ts)
      | JString s \<Rightarrow> Inr (list_ex (\<lambda>tag. is_substring (to_string tag) s) ts)
      | _ \<Rightarrow> Inl TypeError)"

text \<open>
  The predicate of \<^verbatim>\<open>_searchEngine\<close>, its conjuncts in the order \<^verbatim>\<open>&&\<close> evaluates
  them: the test of the tags is reached only when the tests before it hold.
\<close>

definition filterFunction :: "filters \<Rightarrow> obj \<Rightarrow> error + bool" where
  "filterFunction f entry =
     (if \<not> ((\<not> truthy (JArray (filters_feeds f)) \<or> array_includes (filters_feeds f) (get_prop entry ''feedID''))
           \<and> (strict_equal (entry_read f) JUndefined \<or> strict_equal (entry_read f) (get_prop entry ''read''))
           \<and> (strict_equal (entry_starred f) JUndefined \<or> strict_equal (entry_starred f) (get_prop entry ''starred''))
           \<and> (strict_equal (entry_deleted f) JUndefined \<or> strict_equal (entry_deleted f) (get_prop entry ''deleted'')))
      then Inr False
      else case (case entry_tags f of
                   None \<Rightarrow> Inr True
                 | Some ts \<Rightarrow> tags_some ts (get_prop entry ''tags'')) of
        Inl e \<Rightarrow> Inl e
      | Inr t \<Rightarrow>
          Inr (t
             \<and> (strict_equal (sort_start f) JUndefined \<or> js_ge (get_prop entry ''date'') (sort_start f))
             \<and> (strict_equal (sort_end f) JUndefined \<or> js_le (get_prop entry ''date'') (sort_end f))))"

definition priv_searchEngine :: "filters \<Rightarrow> error + string \<times> (obj \<Rightarrow> error + bool)" where
  "priv_searchEngine f =
     (if \<not> strict_equal (sort_direction f) (JString ''desc'')
      then Inl (Thrown ''asc not supported yet'')
      else Inr (''deleted_read_feedID_date'', filterFunction f))"

subsection \<open>count\<close>

definition num_le :: "number \<Rightarrow> number \<Rightarrow> bool" where
  "num_le a b = (a \<noteq> NaN \<and> b \<noteq> NaN \<and> \<not> num_less b a)"

record scan_state =
  s_offset :: number
  s_limit :: number
  answer :: nat
  totalCallbacks :: nat

text \<open>
  One call of \<^verbatim>\<open>req.onsuccess\<close> with the cursor on a record: the new variables and
  whether \<^verbatim>\<open>cursor.continue()\<close> was called, or the exception of \<^verbatim>\<open>filterFunction\<close>.
\<close>

definition on_success :: "(obj \<Rightarrow> error + bool) \<Rightarrow> obj \<Rightarrow> scan_state \<Rightarrow> error + bool \<times> scan_state" where
  "on_success filterFn v st =
     (let st = st\<lparr>totalCallbacks := totalCallbacks st + 1\<rparr>
      in if num_le (s_limit st) (Finite 0) then Inr (False, st)
         else case filterFn v of
           Inl e \<Rightarrow> Inl e
         | Inr cmp \<Rightarrow>
             Inr (True,
               if cmp then
                 (if num_less (Finite 0) (s_offset st)
                  then st\<lparr>s_offset := num_pred (s_offset st)\<rparr>
                  else st\<lparr>answer := answer st + 1, s_limit := num_pred (s_limit st)\<rparr>)
               else st))"

text \<open>The cursor over the records \<^verbatim>\<open>vs\<close>: it moves on only when \<^verbatim>\<open>continue\<close> was called.\<close>

fun scan :: "(obj \<Rightarrow> error + bool) \<Rightarrow> obj list \<Rightarrow> scan_state \<Rightarrow> error + scan_state" where
  "scan filterFn [] st = Inr st"
| "scan filterFn (v # vs) st =
     (case on_success filterFn v st of
        Inl e \<Rightarrow> Inl e
      | Inr (True, st') \<Rightarrow> scan filterFn vs st'
      | Inr (False, st') \<Rightarrow> Inr st')"

text \<open>\<^verbatim>\<open>filters.sort.offset || 0\<close> and the limit, \<^verbatim>\<open>Infinity\<close> when it is \<^verbatim>\<open>undefined\<close>.\<close>

definition initial_scan :: "filters \<Rightarrow> scan_state" where
  "initial_scan f =
     \<lparr>s_offset = (case sort_offset f of
                    None \<Rightarrow> Finite 0
                  | Some n \<Rightarrow> if truthy (JNumber n) then n else Finite 0),
      s_limit = (case sort_limit f of None \<Rightarrow> PosInfinity | Some n \<Rightarrow> n),
      answer = 0, totalCallbacks = 0\<rparr>"

text \<open>The records a cursor on the index \<^verbatim>\<open>iname\<close> of the entries store walks.\<close>

definition open_index_cursor :: "idb \<Rightarrow> string \<Rightarrow> error + obj list" where
  "open_index_cursor db iname =
     (case find_store (stores db) ''entries'' of
        None \<Rightarrow> Inl NotFoundError
      | Some st \<Rightarrow>
          (case map_of (indexes st) iname of
             None \<Rightarrow> Inl NotFoundError
           | Some ix \<Rightarrow> Inr (map (\<lambda>(ik, pk, v). v) (index_entries ix (records st)))))"

text \<open>
  \<^verbatim>\<open>count()\<close>. \<^verbatim>\<open>None\<close>: the loop over the folders does not end. An exception of
  \<^verbatim>\<open>filterFunction\<close> in the cursor's handler aborts the transaction without an
  \<^verbatim>\<open>error\<close> event, so that \<^verbatim>\<open>_transactionPromise\<close> never settles.
\<close>

definition count :: "query \<Rightarrow> database \<Rightarrow> (nat promise \<times> query \<times> database) option" where
  "count q s =
     (case init s of
        (Rejected e, s1) \<Rightarrow> Some (Rejected e, q, s1)
      | (Pending, s1) \<Rightarrow> Some (Pending, q, s1)
      | (Fulfilled _, s1) \<Rightarrow>
          (case priv_filters q (priv_feeds s1) of
             None \<Rightarrow> None
           | Some (Inl e, q') \<Rightarrow> Some (Rejected e, q', s1)
           | Some (Inr f, q') \<Rightarrow>
               (case priv_searchEngine f of
                  Inl e \<Rightarrow> Some (Rejected e, q', s1)
                | Inr (indexName, filterFn) \<Rightarrow>
                    (case open_index_cursor (disk s1) indexName of
                       Inl e \<Rightarrow> Some (Rejected e, q', s1)
                     | Inr vs \<Rightarrow>
                         let s2 = emit [BeginTransaction [''entries''], OpenIndexCursor indexName] s1
                         in if io_error s2 then Some (Rejected BackendError, q', s2)
                            else (case scan filterFn vs (initial_scan f) of
                                    Inl e \<Rightarrow> Some (Pending, q', s2)
                                  | Inr st \<Rightarrow> Some (Fulfilled (answer st), q', s2))))))"

section \<open>Notions used in the statements\<close>

fun is_string :: "jsval \<Rightarrow> bool" where
  "is_string (JString _) = True"
| "is_string _ = False"



subsection \<open>Example data\<close>

text \<open>
  A profile that has never run the program, and the database after \<^verbatim>\<open>init\<close>, one feed
  saved and loaded, and one entry put: the entry is unread, not deleted and dated.
\<close>

definition fresh_database :: database where
  "fresh_database =
     \<lparr>priv_db = False, priv_feeds = [], disk = \<lparr>version = 0, stores = []\<rparr>,
      local_feeds = None, sync_feeds = None, io_error = False, events = []\<rparr>"

definition example_feed :: obj where
  "example_feed = [(''feedID'', JNumber (Finite 1)), (''parent'', JNull), (''hidden'', JBool False)]"

definition example_entry :: obj where
  "example_entry =
     [(''id'', JNumber (Finite 1)), (''feedID'', JNumber (Finite 1)),
      (''read'', JNumber (Finite 0)), (''deleted'', JNumber (Finite 0)),
      (''date'', JNumber (Finite 100))]"

definition example_database :: database where
  "example_database =
     snd (putEntries [example_entry]
       (snd (loadFeeds (snd (saveFeeds [example_feed] (snd (init fresh_database)))))))"

subsection \<open>The feed tree\<close>

text \<open>
  The children of a node are the feeds whose \<^verbatim>\<open>parent\<close> is the node; a feed is reachable
  from a list of folders when a chain of children leads to it from one of them (the
  folders themselves included).
\<close>

definition feed_children :: "obj list \<Rightarrow> jsval \<Rightarrow> jsval list" where
  "feed_children db_feeds n =
     map (\<lambda>f. get_prop f ''feedID'')
       (filter (\<lambda>f. same_value_zero (get_prop f ''parent'') n) db_feeds)"

definition feed_edges :: "obj list \<Rightarrow> (jsval \<times> jsval) set" where
  "feed_edges db_feeds = {(n, c). c \<in> set (feed_children db_feeds n)}"

definition reachable :: "obj list \<Rightarrow> jsval list \<Rightarrow> jsval set" where
  "reachable db_feeds fl = (feed_edges db_feeds)\<^sup>* `` set fl"


subsection \<open>Reading stores back\<close>

text \<open>The store \<^verbatim>\<open>name\<close> exists and has the key path \<^verbatim>\<open>kp\<close>.\<close>

definition has_store :: "idb \<Rightarrow> string \<Rightarrow> string \<Rightarrow> bool" where
  "has_store db name kp =
     (case find_store (stores db) name of None \<Rightarrow> False | Some st \<Rightarrow> keyPath st = kp)"

text \<open>The records of a store as a map from keys.\<close>

definition lookup :: "store_list \<Rightarrow> string \<Rightarrow> key \<Rightarrow> obj option" where
  "lookup ss name =
     (case find_store ss name of None \<Rightarrow> Map.empty | Some st \<Rightarrow> map_of (records st))"

text \<open>A transaction on which a request to the store \<^verbatim>\<open>name\<close> is carried out.\<close>

definition writable :: "txn \<Rightarrow> string \<Rightarrow> string \<Rightarrow> bool" where
  "writable tx name kp =
     (name \<in> set (tx_scope tx) \<and> tx_readwrite tx \<and> tx_failed tx = None \<and> \<not> tx_io tx
      \<and> (case find_store (tx_stores tx) name of None \<Rightarrow> False | Some st \<Rightarrow> keyPath st = kp))"

text \<open>The key an object has under a key path (a value that is no key is not used).\<close>

definition key_at :: "string \<Rightarrow> obj \<Rightarrow> key" where
  "key_at kp v = (case to_key (get_prop v kp) of Some k \<Rightarrow> k | None \<Rightarrow> KString [])"

text \<open>The map after the values \<^verbatim>\<open>vf e\<close> were stored under the keys \<^verbatim>\<open>kf e\<close>, in the order of the list.\<close>

primrec written :: "(obj \<Rightarrow> key) \<Rightarrow> (obj \<Rightarrow> obj) \<Rightarrow> obj list \<Rightarrow> (key \<Rightarrow> obj option) \<Rightarrow> key \<Rightarrow> obj option" where
  "written kf vf [] m = m"
| "written kf vf (e # es) m = written kf vf es (m(kf e \<mapsto> vf e))"

text \<open>
  An entry that \<^verbatim>\<open>_putEntry\<close> writes without an exception: its \<^verbatim>\<open>id\<close> is a valid key and
  its \<^verbatim>\<open>tags\<close> is a string or falsy.
\<close>

definition accepted :: "obj \<Rightarrow> bool" where
  "accepted e =
     (to_key (get_prop e ''id'') \<noteq> None
      \<and> (\<not> truthy (get_prop e ''tags'') \<or> is_string (get_prop e ''tags'')))"

definition stored_entry :: "obj \<Rightarrow> obj" where
  "stored_entry e = (case entry_record e of Inr r \<Rightarrow> r | Inl _ \<Rightarrow> [])"

text \<open>An entry with two tags and a title, and an entry read back from the store: its \<^verbatim>\<open>tags\<close> is an array.\<close>

definition tagged_entry :: obj where
  "tagged_entry =
     [(''id'', JNumber (Finite 2)), (''feedID'', JNumber (Finite 1)),
      (''read'', JNumber (Finite 0)), (''deleted'', JNumber (Finite 0)),
      (''date'', JNumber (Finite 200)), (''tags'', JString ''a, b''), (''title'', JString ''T'')]"


text \<open>
  The two stores of \<^verbatim>\<open>putEntries\<close> as \<^verbatim>\<open>upgrade\<close> creates them: the key path is \<^verbatim>\<open>id\<close>
  and the store generates the keys that are missing.
\<close>

definition generating :: "store_list \<Rightarrow> string \<Rightarrow> bool" where
  "generating ss name =
     (case find_store ss name of None \<Rightarrow> False | Some st \<Rightarrow> keyPath st = ''id'' \<and> autoIncrement st)"

definition entry_stores :: "store_list \<Rightarrow> bool" where
  "entry_stores ss = (generating ss ''revisions'' \<and> generating ss ''entries'')"


text \<open>The transaction of \<^verbatim>\<open>putEntries\<close>: read-write, on the two stores.\<close>

definition open_tx :: "txn \<Rightarrow> bool" where
  "open_tx tx =
     (tx_scope tx = [''revisions'', ''entries''] \<and> tx_readwrite tx \<and> entry_stores (tx_stores tx))"

text \<open>
  A later state of that transaction: a failure stays as it is, a backend that fails
  fails with its own error, and as long as no request has failed no key has left a store.
\<close>

definition tx_after :: "txn \<Rightarrow> txn \<Rightarrow> bool" where
  "tx_after tx tx' =
     (open_tx tx' \<and> tx_io tx' = tx_io tx
      \<and> (tx_failed tx \<noteq> None \<longrightarrow> tx_failed tx' = tx_failed tx)
      \<and> (tx_io tx \<and> tx_failed tx = None \<longrightarrow> tx_failed tx' = None \<or> tx_failed tx' = Some BackendError)
      \<and> (tx_failed tx' = None \<longrightarrow>
           (\<forall>m. dom (lookup (tx_stores tx) m) \<subseteq> dom (lookup (tx_stores tx') m))))"





text \<open>
  The backup scenario of the specification: the database is open and its feed store is
  empty, the local backup holds the feed 5 and the sync backup the feed 9; the record of
  the calls to storage starts empty.
\<close>

definition backup_database :: database where
  "backup_database =
     (snd (init fresh_database))
       \<lparr>local_feeds := Some [[(''feedID'', JNumber (Finite 5))]],
        sync_feeds := Some [[(''feedID'', JNumber (Finite 9))]], events := []\<rparr>"

text \<open>
  A profile left by the release of version 20, never opened by this program: the stores
  of the cases 0 and 10, and one entry whose \<^verbatim>\<open>read\<close> is still a boolean.
\<close>

definition legacy_stores :: store_list where
  "legacy_stores = (case run_all [case_0, case_10] [] of Inr ss \<Rightarrow> ss | Inl _ \<Rightarrow> [])"

definition legacy_database :: database where
  "legacy_database =
     fresh_database
       \<lparr>disk :=
          \<lparr>version = 20,
           stores =
             (case find_store legacy_stores ''entries'' of
                None \<Rightarrow> legacy_stores
              | Some st \<Rightarrow>
                  update_store ''entries''
                    (st\<lparr>generator := 2,
                        records := [(KNumber (Finite 1),
                                     [(''id'', JNumber (Finite 1)), (''read'', JBool True)])]\<rparr>)
                    legacy_stores)\<rparr>\<rparr>"

subsection \<open>Counting\<close>

text \<open>A record is in an index when its key path gives a valid key.\<close>

definition indexed :: "index_spec \<Rightarrow> obj \<Rightarrow> bool" where
  "indexed ix v = (index_keys ix v \<noteq> [])"

text \<open>The number of records of a store that are in the index and pass the predicate.\<close>

definition matching :: "(obj \<Rightarrow> error + bool) \<Rightarrow> index_spec \<Rightarrow> (key \<times> obj) list \<Rightarrow> nat" where
  "matching fn ix rs = length (filter (\<lambda>(k, v). indexed ix v \<and> fn v = Inr True) rs)"

text \<open>\<open>min(L, max(0, M - O))\<close>, and \<open>max(0, M - O)\<close> without a limit.\<close>

definition page :: "number option \<Rightarrow> int \<Rightarrow> nat \<Rightarrow> nat" where
  "page lim ofs m =
     (case lim of
        Some (Finite l) \<Rightarrow> min (nat l) (m - nat ofs)
      | _ \<Rightarrow> m - nat ofs)"

text \<open>An entry without a date, and the example database with it.\<close>

definition undated_entry :: obj where
  "undated_entry =
     [(''id'', JNumber (Finite 4)), (''feedID'', JNumber (Finite 1)),
      (''read'', JNumber (Finite 0)), (''deleted'', JNumber (Finite 0))]"

definition undated_database :: database where
  "undated_database = snd (putEntries [undated_entry] example_database)"

definition paged_database :: database where
  "paged_database = snd (putEntries [tagged_entry] undated_database)"

text \<open>The index \<^verbatim>\<open>deleted_read_feedID_date\<close> as \<^verbatim>\<open>upgrade\<close> creates it.\<close>

definition composite_index :: index_spec where
  "composite_index =
     \<lparr>index_key_path = Compound [''deleted'', ''read'', ''feedID'', ''date''], multiEntry = False\<rparr>"

section \<open>Objects and stores\<close>

lemma get_prop_set_prop_same: "get_prop (set_prop ob n x) n = x"
  by (induction ob) (auto simp: get_prop_def)

lemma get_prop_set_prop_other: "m \<noteq> n \<Longrightarrow> get_prop (set_prop ob n x) m = get_prop ob m"
  by (induction ob) (auto simp: get_prop_def)

lemma set_prop_set_prop: "set_prop (set_prop ob n x) n y = set_prop ob n y"
  by (induction ob) auto

lemma set_prop_unchanged: "map_of ob n = Some x \<Longrightarrow> set_prop ob n x = ob"
  by (induction ob) (auto split: if_splits)

lemma find_store_update_store_same: "find_store (update_store n st ss) n = Some st"
  by (induction ss) (auto simp: find_store_def)

lemma find_store_update_store_other:
  "m \<noteq> n \<Longrightarrow> find_store (update_store n st ss) m = find_store ss m"
  by (induction ss) (auto simp: find_store_def)

lemma update_store_update_store: "update_store n st' (update_store n st ss) = update_store n st' ss"
  by (induction ss) auto

section \<open>The migration\<close>

lemma rewrite_read_idem: "rewrite_read (rewrite_read v) = rewrite_read v"
  by (simp add: rewrite_read_def get_prop_set_prop_same set_prop_set_prop)

lemma rewrite_read_fixed:
  assumes "get_prop v ''read'' = JNumber (Finite 0) \<or> get_prop v ''read'' = JNumber (Finite 1)"
  shows "rewrite_read v = v"
proof -
  obtain r where r: "map_of v ''read'' = Some r" and v: "get_prop v ''read'' = r"
    using assms by (auto simp: get_prop_def split: option.splits)
  from assms v have "JNumber (Finite (if truthy r then 1 else 0)) = r"
    by auto
  with r v show ?thesis
    by (simp add: rewrite_read_def set_prop_unchanged)
qed

lemma rewrite_records_idem:
  "rewrite_records kp rs = Inr rs' \<Longrightarrow> rewrite_records kp rs' = Inr rs'"
proof (induction rs arbitrary: rs')
  case Nil
  then show ?case by simp
next
  case (Cons r rs)
  obtain k v where r: "r = (k, v)" by (cases r)
  from Cons.prems r obtain rs0 where
    k: "extract_key (Single kp) (rewrite_read v) = Key k" and
    rs0: "rewrite_records kp rs = Inr rs0" and
    rs': "rs' = (k, rewrite_read v) # rs0"
    by (auto split: if_splits sum.splits)
  from Cons.IH [OF rs0] k rs' show ?case
    by (simp add: rewrite_read_idem)
qed

lemma update_generator_ge: "g \<le> update_generator k g"
  by (cases "(k, g)" rule: update_generator.cases) (auto simp: Let_def)

lemma update_generator_fixed: "update_generator k g \<le> h \<Longrightarrow> update_generator k h = h"
  by (cases "(k, g)" rule: update_generator.cases) (auto simp: Let_def split: if_splits)

lemma fold_update_generator_ge: "g \<le> fold update_generator ks g"
proof (induction ks arbitrary: g)
  case Nil
  then show ?case by simp
next
  case (Cons k ks)
  have "g \<le> update_generator k g" by (rule update_generator_ge)
  also have "\<dots> \<le> fold update_generator ks (update_generator k g)" by (rule Cons.IH)
  finally show ?case by simp
qed

lemma update_generator_after_fold:
  "k \<in> set ks \<Longrightarrow> update_generator k (fold update_generator ks g) = fold update_generator ks g"
proof (induction ks arbitrary: g)
  case Nil
  then show ?case by simp
next
  case (Cons a ks)
  show ?case
  proof (cases "k = a")
    case True
    have "update_generator a g \<le> fold update_generator ks (update_generator a g)"
      by (rule fold_update_generator_ge)
    then show ?thesis using True by (simp add: update_generator_fixed)
  next
    case False
    with Cons.prems have "k \<in> set ks" by simp
    then show ?thesis using Cons.IH by simp
  qed
qed

lemma fold_update_generator_fixed:
  "(\<And>k. k \<in> set ks \<Longrightarrow> update_generator k h = h) \<Longrightarrow> fold update_generator ks h = h"
  by (induction ks) simp_all

lemma fold_update_generator_idem:
  "fold update_generator ks (fold update_generator ks g) = fold update_generator ks g"
  by (rule fold_update_generator_fixed) (rule update_generator_after_fold)

lemma rewrite_store_idem: "rewrite_store st = Inr st' \<Longrightarrow> rewrite_store st' = Inr st'"
  by (auto simp: rewrite_store_def fold_update_generator_idem rewrite_records_idem split: sum.splits)

lemma rewrite_entries_idem: "rewrite_entries ss = Inr ss' \<Longrightarrow> rewrite_entries ss' = Inr ss'"
  by (auto simp: rewrite_entries_def find_store_update_store_same update_store_update_store
      dest: rewrite_store_idem split: option.splits sum.splits)

text \<open>
  Claim C9. The rewrite of the \<^verbatim>\<open>read\<close> field is idempotent: a record whose \<^verbatim>\<open>read\<close> is
  already 0 or 1 is left as it is, and a second run of the cursor over the entries store
  succeeds and gives exactly the store the first run gave.
\<close>

theorem read_rewrite_idempotent:
  "(get_prop v ''read'' = JNumber (Finite 0) \<or> get_prop v ''read'' = JNumber (Finite 1)
      \<longrightarrow> rewrite_read v = v)
   \<and> rewrite_read (rewrite_read v) = rewrite_read v
   \<and> (rewrite_entries ss = Inr ss' \<longrightarrow> rewrite_entries ss' = Inr ss')"
  using rewrite_read_fixed [of v] rewrite_read_idem [of v] rewrite_entries_idem [of ss ss']
  by blast

theorem read_rewrite_idempotent_witness:
  "rewrite_read [(''id'', JNumber (Finite 7)), (''read'', JNumber (Finite 1))]
     = [(''id'', JNumber (Finite 7)), (''read'', JNumber (Finite 1))]
   \<and> rewrite_entries
       [(''entries'', \<lparr>keyPath = ''id'', autoIncrement = True, generator = 1, indexes = [],
          records = [(KNumber (Finite 7), [(''id'', JNumber (Finite 7)), (''read'', JBool True)])]\<rparr>)]
     = Inr [(''entries'', \<lparr>keyPath = ''id'', autoIncrement = True, generator = 8, indexes = [],
          records = [(KNumber (Finite 7), [(''id'', JNumber (Finite 7)), (''read'', JNumber (Finite 1))])]\<rparr>)]
   \<and> rewrite_entries
       [(''entries'', \<lparr>keyPath = ''id'', autoIncrement = True, generator = 8, indexes = [],
          records = [(KNumber (Finite 7), [(''id'', JNumber (Finite 7)), (''read'', JNumber (Finite 1))])]\<rparr>)]
     = Inr [(''entries'', \<lparr>keyPath = ''id'', autoIncrement = True, generator = 8, indexes = [],
          records = [(KNumber (Finite 7), [(''id'', JNumber (Finite 7)), (''read'', JNumber (Finite 1))])]\<rparr>)]"
proof -
  let ?v = "[(''id'', JNumber (Finite 7)), (''read'', JNumber (Finite 1))]"
  let ?ss = "[(''entries'', \<lparr>keyPath = ''id'', autoIncrement = True, generator = 1, indexes = [],
          records = [(KNumber (Finite 7), [(''id'', JNumber (Finite 7)), (''read'', JBool True)])]\<rparr>)]"
  let ?ss' = "[(''entries'', \<lparr>keyPath = ''id'', autoIncrement = True, generator = 8, indexes = [],
          records = [(KNumber (Finite 7), [(''id'', JNumber (Finite 7)), (''read'', JNumber (Finite 1))])]\<rparr>)]"
  have h1: "get_prop ?v ''read'' = JNumber (Finite 0) \<or> get_prop ?v ''read'' = JNumber (Finite 1)"
    by (simp add: get_prop_def)
  have h2: "rewrite_entries ?ss = Inr ?ss'"
    by (simp add: rewrite_entries_def find_store_def rewrite_store_def rewrite_read_def
        get_prop_def extract_key_def evaluate_name_def max_generator_def)
  note th = read_rewrite_idempotent [of ?v ?ss ?ss']
  from th h1 have "rewrite_read ?v = ?v" by blast
  moreover from th h2 have "rewrite_entries ?ss' = Inr ?ss'" by blast
  ultimately show ?thesis using h2 by blast
qed

section \<open>The switch of upgrade\<close>

lemma switch_from_simps:
  "switch_from x [] = []"
  "switch_from x ((l, b) # cs) = (if l = x then (l, b) # cs else switch_from x cs)"
  by (simp_all add: switch_from_def)

text \<open>
  Claim C2, as amended. From the on-disk versions 0, 10 and 20 \<^verbatim>\<open>upgrade\<close> runs exactly
  the case blocks whose label is at least the version, in increasing order. From any
  other version the \<^verbatim>\<open>switch\<close> matches no label: no block runs and the stores are left
  as they are.
\<close>

theorem upgrade_switch:
  "(V \<in> {0, 10, 20} \<longrightarrow>
      upgrade_steps V = filter (\<lambda>v. V \<le> v) [0, 10, 20]
      \<and> upgrade V ss = run_all (map snd (filter (\<lambda>(v, _). V \<le> v) upgrade_cases)) ss)
   \<and> (V \<notin> {0, 10, 20} \<longrightarrow> upgrade_steps V = [] \<and> upgrade V ss = Inr ss)"
  by (auto simp: upgrade_steps_def upgrade_def upgrade_cases_def switch_from_simps)

theorem upgrade_switch_witness:
  "upgrade_steps 10 = [10, 20] \<and> upgrade 10 [] = run_all [case_10, case_20] []
   \<and> upgrade_steps 7 = [] \<and> upgrade 7 [] = Inr []"
proof -
  have a: "(10::nat) \<in> {0, 10, 20}" by simp
  have b: "(7::nat) \<notin> {0, 10, 20}" by simp
  from upgrade_switch [of 10 "[]"] a
  have "upgrade_steps 10 = filter (\<lambda>v. 10 \<le> v) [0, 10, 20]
      \<and> upgrade 10 [] = run_all (map snd (filter (\<lambda>(v, _). 10 \<le> v) upgrade_cases)) []"
    by blast
  moreover from upgrade_switch [of 7 "[]"] b
  have "upgrade_steps 7 = [] \<and> upgrade 7 [] = Inr []" by blast
  ultimately show ?thesis by (simp add: upgrade_cases_def)
qed

text \<open>
  Claim C2 as stated fails at the on-disk version 5: the steps of version 10 and 20
  satisfy \<open>5 \<le> v\<close>, and \<^verbatim>\<open>upgrade\<close> runs none of them.
\<close>

theorem upgrade_from_5_counterexample:
  "upgrade_steps 5 = [] \<and> upgrade 5 [] = Inr []
   \<and> filter (\<lambda>v. 5 \<le> v) (map fst upgrade_cases) = [10, 20]"
  by (simp add: upgrade_steps_def upgrade_def upgrade_cases_def switch_from_simps)

section \<open>Unspecified flags\<close>

lemma strict_equal_NaN [simp]: "strict_equal (JNumber NaN) x = False"
  by (cases x) simp_all

lemma priv_filters_entry:
  "priv_filters q fs = Some (Inr f, q') \<Longrightarrow>
     entry_read f = JNumber (to_number (read q)) \<and> entry_deleted f = JNumber (to_number (deleted q))
     \<and> entry_starred f = starred q \<and> entry_tags f = tags q"
  by (auto simp: priv_filters_def Let_def split: option.splits if_splits prod.splits)

text \<open>
  Where \<^verbatim>\<open>read\<close> or \<^verbatim>\<open>deleted\<close> is left \<^verbatim>\<open>undefined\<close>, unary plus makes it \<^verbatim>\<open>NaN\<close>, and
  the compiled predicate rejects every entry.
\<close>

lemma unspecified_flag_rejects_all:
  assumes "priv_filters q fs = Some (Inr f, q')" "read q = JUndefined \<or> deleted q = JUndefined"
  shows "filterFunction f e = Inr False"
  using priv_filters_entry [OF assms(1)] assms(2)
  by (auto simp: filterFunction_def)

text \<open>
  Claim C1 at its failing input. The example database holds one entry with \<^verbatim>\<open>read: 0\<close> and
  \<^verbatim>\<open>deleted: 0\<close>. The query \<^verbatim>\<open>{read: false}\<close> leaves \<^verbatim>\<open>deleted\<close> unspecified and counts
  0 entries; with \<^verbatim>\<open>deleted: 0\<close> given as well the same entry is counted.
\<close>

theorem count_with_unspecified_deleted:
  "map_option fst (count (default_query\<lparr>read := JBool False\<rparr>) example_database)
     = Some (Fulfilled 0)
   \<and> map_option fst
        (count (default_query\<lparr>read := JBool False, deleted := JNumber (Finite 0)\<rparr>) example_database)
     = Some (Fulfilled 1)"
  by code_simp

section \<open>Tags\<close>

















lemma split_on_empty_string: "sep \<noteq> [] \<Longrightarrow> split_on sep [] [] = [[]]"
  by (subst split_on.simps) simp

lemma split_tags_falsy: "\<not> truthy t \<Longrightarrow> split_tags t = Inr (JArray [JString []])"
  by (simp add: split_tags_def split_on_empty_string)

lemma get_prop_copy_fields:
  "get_prop (copy_fields names src dst) n = (if n \<in> set names then get_prop src n else get_prop dst n)"
  unfolding copy_fields_def
  by (induction names arbitrary: dst) (auto simp: get_prop_set_prop_same get_prop_set_prop_other)

lemma entry_record_untagged:
  assumes "get_prop e ''tags'' \<in> {JUndefined, JNull, JString []}"
  shows "\<exists>r. entry_record e = Inr r \<and> get_prop r ''tags'' = JArray [JString []]"
proof -
  have "\<not> truthy (get_prop e ''tags'')" using assms by auto
  then show ?thesis
    by (simp add: entry_record_def Let_def get_prop_set_prop_same get_prop_set_prop_other
        get_prop_copy_fields ENTRY_FIELDS_def split_tags_falsy)
qed



section \<open>The folder list\<close>

lemma same_value_zero_eq: "same_value_zero a b \<Longrightarrow> a = b"
  by (cases a) auto

lemma map_get_map_set:
  "map_get (map_set m k v) n = (if same_value_zero k n then Some v else map_get m n)"
proof (induction m)
  case Nil
  then show ?case by (simp add: map_get_def)
next
  case (Cons p m)
  obtain k' v' where p: "p = (k', v')" by (cases p)
  show ?case
  proof (cases "same_value_zero k' k")
    case True
    then have "k' = k" by (rule same_value_zero_eq)
    with True p show ?thesis by (auto simp: map_get_def)
  next
    case False
    have "same_value_zero k n \<Longrightarrow> \<not> same_value_zero k' n"
      using False same_value_zero_eq [of k n] by auto
    with False p Cons.IH show ?thesis by (auto simp: map_get_def)
  qed
qed

lemma children_of_add_child:
  "children_of (add_child node m) n =
     (if same_value_zero (get_prop node ''parent'') n
      then children_of m n @ [get_prop node ''feedID'']
      else children_of m n)"
  using same_value_zero_eq [of "get_prop node ''parent''" n]
  by (auto simp: add_child_def children_of_def Let_def map_get_map_set)

lemma children_of_fold:
  "children_of (fold add_child fs m) n = children_of m n @ feed_children fs n"
  by (induction fs arbitrary: m) (auto simp: children_of_add_child feed_children_def)

lemma children_of_empty: "children_of [] n = []"
  by (simp add: children_of_def map_get_def)

lemma children_of_build: "children_of (build_childrenMap fs) n = feed_children fs n"
  by (simp only: build_childrenMap_def children_of_fold children_of_empty append_Nil)

lemma finite_feed_edges: "finite (feed_edges fs)"
proof -
  have "feed_edges fs \<subseteq> (\<lambda>f. (get_prop f ''parent'', get_prop f ''feedID'')) ` set fs"
    by (auto simp: feed_edges_def feed_children_def dest: same_value_zero_eq)
  then show ?thesis by (rule finite_subset) simp
qed

lemma Image_rtrancl_insert:
  "r\<^sup>* `` insert x A = insert x (r\<^sup>* `` (A \<union> r `` {x}))"
proof -
  have "r\<^sup>* `` {x} = insert x (r\<^sup>* `` (r `` {x}))"
    by (auto elim: converse_rtranclE intro: converse_rtrancl_into_rtrancl)
  then show ?thesis by blast
qed

lemma expand_nodes_total:
  assumes wf: "wf ((feed_edges fs)\<inverse>)"
  shows "\<exists>res. expand_nodes (build_childrenMap fs) nodes new_nodes = Some res
           \<and> set res = set nodes \<union> (feed_edges fs)\<^sup>* `` set new_nodes"
proof -
  let ?r = "(feed_edges fs)\<inverse>"
  let ?E = "feed_edges fs"
  have "wf (inv_image (mult ?r) mset)" using wf by (simp add: wf_mult)
  then show ?thesis
  proof (induction new_nodes arbitrary: nodes rule: wf_induct_rule)
    case (less new_nodes)
    show ?case
    proof (cases "new_nodes = []")
      case True
      then show ?thesis by (subst expand_nodes.simps) simp
    next
      case False
      define node where "node = last new_nodes"
      define rest where "rest = butlast new_nodes"
      define children where "children = feed_children fs node"
      have new: "new_nodes = rest @ [node]"
        using False by (simp add: node_def rest_def)
      have edge: "\<And>c. c \<in> set children \<Longrightarrow> (c, node) \<in> ?r"
        by (simp add: children_def feed_edges_def)
      have "(mset rest + mset children, mset rest + {#node#}) \<in> mult ?r"
        by (rule one_step_implies_mult) (auto dest: edge)
      then have smaller: "(rest @ children, new_nodes) \<in> inv_image (mult ?r) mset"
        by (simp add: new inv_image_def)
      from less.IH [OF smaller, of "nodes @ [node]"] obtain res where
        res: "expand_nodes (build_childrenMap fs) (nodes @ [node]) (rest @ children) = Some res"
        and set_res: "set res = set (nodes @ [node]) \<union> ?E\<^sup>* `` set (rest @ children)"
        by blast
      have step: "expand_nodes (build_childrenMap fs) nodes new_nodes = Some res"
        using False res
        by (subst expand_nodes.simps)
           (simp add: Let_def children_of_build node_def rest_def children_def)
      have img: "?E `` {node} = set children"
        by (auto simp: children_def feed_edges_def)
      have "?E\<^sup>* `` set new_nodes = insert node (?E\<^sup>* `` (set rest \<union> set children))"
        using Image_rtrancl_insert [of ?E node "set rest"] img by (simp add: new Un_commute)
      with set_res have "set res = set nodes \<union> ?E\<^sup>* `` set new_nodes" by auto
      with step show ?thesis by blast
    qed
  qed
qed

lemma array_includes_iff: "array_includes xs v \<longleftrightarrow> (\<exists>n\<in>set xs. same_value_zero n v)"
  by (simp add: array_includes_def list_ex_iff)

lemma expand_folders_acyclic:
  assumes "acyclic (feed_edges db_feeds)"
  shows "expand_folders db_feeds fl =
           Some (filter (\<lambda>feed. \<exists>n\<in>reachable db_feeds fl. same_value_zero n (get_prop feed ''feedID''))
                   db_feeds)"
proof -
  have "wf ((feed_edges db_feeds)\<inverse>)"
    using finite_feed_edges assms by (rule finite_acyclic_wf_converse)
  from expand_nodes_total [OF this, of "[]" fl] obtain res where
    "expand_nodes (build_childrenMap db_feeds) [] fl = Some res"
    "set res = reachable db_feeds fl"
    by (auto simp: reachable_def)
  then show ?thesis
    by (simp add: expand_folders_def array_includes_iff)
qed




section \<open>Writing records\<close>

lemma map_of_insert_record: "map_of (insert_record k v rs) = (map_of rs)(k \<mapsto> v)"
  by (induction rs) (auto simp: fun_upd_twist)

lemma extract_key_valid:
  "to_key (get_prop v kp) = Some k \<Longrightarrow> extract_key (Single kp) v = Key k"
  by (auto simp: extract_key_def evaluate_name_def get_prop_def split: option.splits)

lemma tx_put_valid:
  assumes w: "writable tx name kp" and k: "to_key (get_prop v kp) = Some k"
  shows "\<exists>tx'. tx_put tx name v = Inr tx'
           \<and> (\<forall>n p. writable tx n p \<longrightarrow> writable tx' n p)
           \<and> lookup (tx_stores tx') name = (lookup (tx_stores tx) name)(k \<mapsto> v)
           \<and> (\<forall>n. n \<noteq> name \<longrightarrow> lookup (tx_stores tx') n = lookup (tx_stores tx) n)"
proof -
  from w obtain st where st: "find_store (tx_stores tx) name = Some st" "keyPath st = kp"
    by (auto simp: writable_def split: option.splits)
  have ek: "extract_key (Single (keyPath st)) v = Key k"
    using k st(2) by (simp add: extract_key_valid)
  define st' where "st' = st\<lparr>generator := (if autoIncrement st then update_generator k (generator st) else generator st),
                  records := insert_record k v (records st)\<rparr>"
  define tx' where "tx' = tx\<lparr>tx_stores := update_store name st' (tx_stores tx)\<rparr>"
  have put: "tx_put tx name v = Inr tx'"
    using w st ek
    by (simp add: tx_put_def writable_def put_check_def tx_request_def put_request_def
        tx'_def st'_def)
  have kp': "keyPath st' = keyPath st" by (simp add: st'_def)
  have w': "writable tx n p \<Longrightarrow> writable tx' n p" for n p
    using st kp'
    by (cases "n = name")
       (auto simp: writable_def tx'_def find_store_update_store_same find_store_update_store_other
          split: option.splits)
  have rs': "records st' = insert_record k v (records st)" by (simp add: st'_def)
  have l1: "lookup (tx_stores tx') name = (lookup (tx_stores tx) name)(k \<mapsto> v)"
    using st(1) by (simp add: lookup_def tx'_def find_store_update_store_same rs' map_of_insert_record)
  have l2: "n \<noteq> name \<Longrightarrow> lookup (tx_stores tx') n = lookup (tx_stores tx) n" for n
    by (simp add: lookup_def tx'_def find_store_update_store_other)
  from put w' l1 l2 show ?thesis by blast
qed

lemma entry_record_accepted:
  assumes "accepted e"
  shows "\<exists>r. entry_record e = Inr r \<and> get_prop r ''id'' = get_prop e ''id''"
proof -
  have "\<exists>a. split_tags (get_prop e ''tags'') = Inr a"
    using assms by (cases "get_prop e ''tags''") (auto simp: accepted_def split_tags_def)
  then show ?thesis
    by (auto simp: entry_record_def Let_def get_prop_set_prop_same get_prop_set_prop_other
        get_prop_copy_fields ENTRY_FIELDS_def)
qed

lemma revision_record_id: "get_prop (revision_record e) ''id'' = get_prop e ''id''"
  by (simp add: revision_record_def get_prop_copy_fields REVISION_FIELDS_def)

lemma priv_putEntry_accepted:
  assumes wr: "writable tx ''revisions'' ''id''" and we: "writable tx ''entries'' ''id''"
    and acc: "accepted e"
  shows "\<exists>tx'. priv_putEntry e tx = (None, tx')
           \<and> writable tx' ''revisions'' ''id'' \<and> writable tx' ''entries'' ''id''
           \<and> lookup (tx_stores tx') ''revisions''
               = (lookup (tx_stores tx) ''revisions'')(key_at ''id'' e \<mapsto> revision_record e)
           \<and> lookup (tx_stores tx') ''entries''
               = (lookup (tx_stores tx) ''entries'')(key_at ''id'' e \<mapsto> stored_entry e)"
proof -
  from acc obtain k where k: "to_key (get_prop e ''id'') = Some k" by (auto simp: accepted_def)
  then have ko: "key_at ''id'' e = k" by (simp add: key_at_def)
  from entry_record_accepted [OF acc] obtain r where
    r: "entry_record e = Inr r" "get_prop r ''id'' = get_prop e ''id''" by blast
  then have se: "stored_entry e = r" by (simp add: stored_entry_def)
  from tx_put_valid [OF wr, of "revision_record e" k] k obtain tx1 where
    p1: "tx_put tx ''revisions'' (revision_record e) = Inr tx1"
    and w1: "\<And>n p. writable tx n p \<Longrightarrow> writable tx1 n p"
    and l1: "lookup (tx_stores tx1) ''revisions'' = (lookup (tx_stores tx) ''revisions'')(k \<mapsto> revision_record e)"
    and o1: "\<And>n. n \<noteq> ''revisions'' \<Longrightarrow> lookup (tx_stores tx1) n = lookup (tx_stores tx) n"
    by (auto simp: revision_record_id)
  from tx_put_valid [OF w1 [OF we], of r k] k r(2) obtain tx2 where
    p2: "tx_put tx1 ''entries'' r = Inr tx2"
    and w2: "\<And>n p. writable tx1 n p \<Longrightarrow> writable tx2 n p"
    and l2: "lookup (tx_stores tx2) ''entries'' = (lookup (tx_stores tx1) ''entries'')(k \<mapsto> r)"
    and o2: "\<And>n. n \<noteq> ''entries'' \<Longrightarrow> lookup (tx_stores tx2) n = lookup (tx_stores tx1) n"
    by auto
  have "priv_putEntry e tx = (None, tx2)"
    using r(1) p1 p2 by (simp add: priv_putEntry_def)
  moreover have "writable tx2 ''revisions'' ''id''" "writable tx2 ''entries'' ''id''"
    using w2 w1 wr we by blast+
  moreover have "lookup (tx_stores tx2) ''revisions'' = (lookup (tx_stores tx) ''revisions'')(k \<mapsto> revision_record e)"
    using o2 [of "''revisions''"] l1 by simp
  moreover have "lookup (tx_stores tx2) ''entries'' = (lookup (tx_stores tx) ''entries'')(k \<mapsto> r)"
    using o1 [of "''entries''"] l2 by simp
  ultimately show ?thesis using ko se by blast
qed

lemma put_each_accepted:
  assumes "writable tx ''revisions'' ''id''" "writable tx ''entries'' ''id''"
    "\<forall>e\<in>set es. accepted e"
  shows "\<exists>tx'. put_each es tx = (None, tx')
           \<and> writable tx' ''revisions'' ''id'' \<and> writable tx' ''entries'' ''id''
           \<and> lookup (tx_stores tx') ''revisions''
               = written (key_at ''id'') revision_record es (lookup (tx_stores tx) ''revisions'')
           \<and> lookup (tx_stores tx') ''entries''
               = written (key_at ''id'') stored_entry es (lookup (tx_stores tx) ''entries'')"
  using assms
proof (induction es arbitrary: tx)
  case Nil
  then show ?case by simp
next
  case (Cons e es)
  from Cons.prems have acc: "accepted e" and rest: "\<forall>e\<in>set es. accepted e" by auto
  from priv_putEntry_accepted [OF Cons.prems(1,2) acc] obtain tx1 where
    p: "priv_putEntry e tx = (None, tx1)"
    and w: "writable tx1 ''revisions'' ''id''" "writable tx1 ''entries'' ''id''"
    and l: "lookup (tx_stores tx1) ''revisions''
               = (lookup (tx_stores tx) ''revisions'')(key_at ''id'' e \<mapsto> revision_record e)"
           "lookup (tx_stores tx1) ''entries''
               = (lookup (tx_stores tx) ''entries'')(key_at ''id'' e \<mapsto> stored_entry e)"
    by blast
  from Cons.IH [OF w rest] obtain tx' where
    "put_each es tx1 = (None, tx')"
    "writable tx' ''revisions'' ''id''" "writable tx' ''entries'' ''id''"
    "lookup (tx_stores tx') ''revisions''
               = written (key_at ''id'') revision_record es (lookup (tx_stores tx1) ''revisions'')"
    "lookup (tx_stores tx') ''entries''
               = written (key_at ''id'') stored_entry es (lookup (tx_stores tx1) ''entries'')"
    by blast
  with p l show ?case by simp
qed

lemma written_other: "k \<notin> kf ` set es \<Longrightarrow> written kf vf es m k = m k"
  by (induction es arbitrary: m) auto

lemma written_distinct:
  "distinct (map kf es) \<Longrightarrow> e \<in> set es \<Longrightarrow> written kf vf es m (kf e) = Some (vf e)"
proof (induction es arbitrary: m)
  case Nil
  then show ?case by simp
next
  case (Cons a es)
  show ?case
  proof (cases "e \<in> set es")
    case True
    with Cons show ?thesis by simp
  next
    case False
    with Cons.prems have ea: "e = a" by simp
    have "kf a \<notin> kf ` set es" using Cons.prems(1) by simp
    from written_other [OF this] ea show ?thesis by simp
  qed
qed

lemma begin_writable:
  assumes "has_store db name kp" "name \<in> set names" "\<not> io"
    "begin_transaction db io names True = Inr tx"
  shows "writable tx name kp"
  using assms
  by (auto simp: begin_transaction_def has_store_def writable_def split: if_splits option.splits)

lemma begin_stores: "begin_transaction db io names rw = Inr tx \<Longrightarrow> tx_stores tx = stores db"
  by (auto simp: begin_transaction_def split: if_splits)

lemma begin_ok:
  "list_all (\<lambda>n. find_store (stores db) n \<noteq> None) names \<Longrightarrow>
     \<exists>tx. begin_transaction db io names rw = Inr tx"
  by (simp add: begin_transaction_def)

lemma has_store_find: "has_store db name kp \<Longrightarrow> find_store (stores db) name \<noteq> None"
  by (auto simp: has_store_def split: option.splits)

lemma get_record_lookup:
  "to_key v = Some k \<Longrightarrow> get_record db name v = lookup (stores db) name k"
  by (auto simp: get_record_def lookup_def split: option.splits)

lemma putEntries_accepted:
  assumes op: "priv_db s" and io: "\<not> io_error s"
    and hr: "has_store (disk s) ''revisions'' ''id''" and he: "has_store (disk s) ''entries'' ''id''"
    and acc: "\<forall>e\<in>set es. accepted e"
  shows "\<exists>s'. putEntries es s = (Fulfilled (), s')
          \<and> lookup (stores (disk s')) ''revisions''
              = written (key_at ''id'') revision_record es (lookup (stores (disk s)) ''revisions'')
          \<and> lookup (stores (disk s')) ''entries''
              = written (key_at ''id'') stored_entry es (lookup (stores (disk s)) ''entries'')"
proof -
  from has_store_find [OF hr] has_store_find [OF he]
  obtain tx where tx: "begin_transaction (disk s) (io_error s) [''revisions'', ''entries''] True = Inr tx"
    using begin_ok [of "disk s" "[''revisions'', ''entries'']"] by auto
  have wr: "writable tx ''revisions'' ''id''" using begin_writable [OF hr _ io tx] by simp
  have we: "writable tx ''entries'' ''id''" using begin_writable [OF he _ io tx] by simp
  from put_each_accepted [OF wr we acc] obtain tx' where
    pe: "put_each es tx = (None, tx')"
    and w': "writable tx' ''revisions'' ''id''"
    and lr: "lookup (tx_stores tx') ''revisions''
               = written (key_at ''id'') revision_record es (lookup (tx_stores tx) ''revisions'')"
    and le: "lookup (tx_stores tx') ''entries''
               = written (key_at ''id'') stored_entry es (lookup (tx_stores tx) ''entries'')"
    by blast
  from w' have nf: "tx_failed tx' = None" by (simp add: writable_def)
  have "putEntries es s = (Fulfilled (),
          (emit [BeginTransaction [''revisions'', ''entries'']] s)\<lparr>disk := (disk s)\<lparr>stores := tx_stores tx'\<rparr>\<rparr>)"
    using op tx pe nf by (simp add: putEntries_def Let_def finish_def emit_def)
  with lr le begin_stores [OF tx] show ?thesis by simp
qed

lemma split_tags_accepted: "accepted e \<Longrightarrow> \<exists>a. split_tags (get_prop e ''tags'') = Inr a"
  by (cases "get_prop e ''tags''") (auto simp: accepted_def split_tags_def)

lemma stored_entry_fields:
  assumes "accepted e"
  shows "entry_record e = Inr (stored_entry e)"
    and "\<forall>name\<in>set ENTRY_FIELDS. name \<noteq> ''tags'' \<longrightarrow> get_prop (stored_entry e) name = get_prop e name"
    and "split_tags (get_prop e ''tags'') = Inr (get_prop (stored_entry e) ''tags'')"
proof -
  from split_tags_accepted [OF assms] obtain a where a: "split_tags (get_prop e ''tags'') = Inr a"
    by blast
  then have r: "entry_record e = Inr (set_prop (set_prop (set_prop (copy_fields ENTRY_FIELDS e [])
        ''revisions'' (JArray [JObject [(''id'', get_prop e ''id'')]]))
        ''bookmarked'' (JBool (\<not> strict_equal (get_prop e ''bookmarkID'') (JNumber (Finite (- 1))))))
        ''tags'' a)"
    by (simp add: entry_record_def Let_def get_prop_set_prop_same get_prop_set_prop_other
        get_prop_copy_fields ENTRY_FIELDS_def)
  then show "entry_record e = Inr (stored_entry e)" by (simp add: stored_entry_def)
  from r have se: "stored_entry e = set_prop (set_prop (set_prop (copy_fields ENTRY_FIELDS e [])
        ''revisions'' (JArray [JObject [(''id'', get_prop e ''id'')]]))
        ''bookmarked'' (JBool (\<not> strict_equal (get_prop e ''bookmarkID'') (JNumber (Finite (- 1))))))
        ''tags'' a"
    by (simp add: stored_entry_def)
  show "\<forall>name\<in>set ENTRY_FIELDS. name \<noteq> ''tags'' \<longrightarrow> get_prop (stored_entry e) name = get_prop e name"
    unfolding se
    by (auto simp: ENTRY_FIELDS_def get_prop_set_prop_other get_prop_copy_fields)
  show "split_tags (get_prop e ''tags'') = Inr (get_prop (stored_entry e) ''tags'')"
    unfolding se using a by (simp add: get_prop_set_prop_same)
qed

lemma revision_record_fields:
  "\<forall>name\<in>set REVISION_FIELDS. get_prop (revision_record e) name = get_prop e name"
  by (simp add: revision_record_def get_prop_copy_fields)

text \<open>
  Claim C3, as amended. When every entry of the list has a valid key as its \<^verbatim>\<open>id\<close> and
  a string or falsy \<^verbatim>\<open>tags\<close>, and no two entries share an id, \<^verbatim>\<open>putEntries\<close> fulfils, and
  the Revision and Entry records read back by an entry's id hold the entry's
  \<^verbatim>\<open>REVISION_FIELDS\<close> and its \<^verbatim>\<open>ENTRY_FIELDS\<close> other than \<^verbatim>\<open>tags\<close> unchanged; \<^verbatim>\<open>tags\<close> is
  the array \<^verbatim>\<open>(tags || '').split(', ')\<close>.
\<close>

theorem putEntries_round_trip:
  assumes "priv_db s" "\<not> io_error s"
    and "has_store (disk s) ''revisions'' ''id''" "has_store (disk s) ''entries'' ''id''"
    and "\<forall>e\<in>set es. accepted e" and "distinct (map (key_at ''id'') es)" and "e \<in> set es"
  shows "\<exists>s' revision entry.
      putEntries es s = (Fulfilled (), s')
      \<and> get_record (disk s') ''revisions'' (get_prop e ''id'') = Some revision
      \<and> (\<forall>name\<in>set REVISION_FIELDS. get_prop revision name = get_prop e name)
      \<and> get_record (disk s') ''entries'' (get_prop e ''id'') = Some entry
      \<and> (\<forall>name\<in>set ENTRY_FIELDS. name \<noteq> ''tags'' \<longrightarrow> get_prop entry name = get_prop e name)
      \<and> split_tags (get_prop e ''tags'') = Inr (get_prop entry ''tags'')"
proof -
  from putEntries_accepted [OF assms(1-5)] obtain s' where
    p: "putEntries es s = (Fulfilled (), s')"
    and lr: "lookup (stores (disk s')) ''revisions''
              = written (key_at ''id'') revision_record es (lookup (stores (disk s)) ''revisions'')"
    and le: "lookup (stores (disk s')) ''entries''
              = written (key_at ''id'') stored_entry es (lookup (stores (disk s)) ''entries'')"
    by blast
  from assms(5,7) have acc: "accepted e" by blast
  then obtain k where k: "to_key (get_prop e ''id'') = Some k" by (auto simp: accepted_def)
  then have ka: "key_at ''id'' e = k" by (simp add: key_at_def)
  have "get_record (disk s') ''revisions'' (get_prop e ''id'') = Some (revision_record e)"
    using written_distinct [OF assms(6,7), of revision_record] lr ka
    by (simp add: get_record_lookup [OF k])
  moreover have "get_record (disk s') ''entries'' (get_prop e ''id'') = Some (stored_entry e)"
    using written_distinct [OF assms(6,7), of stored_entry] le ka
    by (simp add: get_record_lookup [OF k])
  ultimately show ?thesis
    using p revision_record_fields [of e] stored_entry_fields(2,3) [OF acc] by blast
qed

theorem putEntries_round_trip_witness:
  "priv_db (snd (init fresh_database)) \<and> \<not> io_error (snd (init fresh_database))
   \<and> has_store (disk (snd (init fresh_database))) ''revisions'' ''id''
   \<and> has_store (disk (snd (init fresh_database))) ''entries'' ''id''
   \<and> accepted example_entry \<and> accepted tagged_entry
   \<and> distinct (map (key_at ''id'') [example_entry, tagged_entry])
   \<and> (\<exists>s' revision entry.
        putEntries [example_entry, tagged_entry] (snd (init fresh_database)) = (Fulfilled (), s')
        \<and> get_record (disk s') ''revisions'' (get_prop tagged_entry ''id'') = Some revision
        \<and> (\<forall>name\<in>set REVISION_FIELDS. get_prop revision name = get_prop tagged_entry name)
        \<and> get_record (disk s') ''entries'' (get_prop tagged_entry ''id'') = Some entry
        \<and> (\<forall>name\<in>set ENTRY_FIELDS. name \<noteq> ''tags'' \<longrightarrow> get_prop entry name = get_prop tagged_entry name)
        \<and> split_tags (get_prop tagged_entry ''tags'') = Inr (get_prop entry ''tags''))"
proof -
  let ?s = "snd (init fresh_database)"
  have h1: "priv_db ?s" by code_simp
  have h2: "\<not> io_error ?s" by code_simp
  have h3: "has_store (disk ?s) ''revisions'' ''id''" by code_simp
  have h4: "has_store (disk ?s) ''entries'' ''id''" by code_simp
  have h5: "accepted example_entry" by code_simp
  have h6: "accepted tagged_entry" by code_simp
  have h7: "distinct (map (key_at ''id'') [example_entry, tagged_entry])" by code_simp
  have h8: "\<forall>e\<in>set [example_entry, tagged_entry]. accepted e" using h5 h6 by simp
  have h9: "tagged_entry \<in> set [example_entry, tagged_entry]" by simp
  from putEntries_round_trip [OF h1 h2 h3 h4 h8 h7 h9] h1 h2 h3 h4 h5 h6 h7
  show ?thesis by blast
qed

text \<open>
  Claim C3 as stated fails for \<^verbatim>\<open>tags\<close>, which is one of the \<^verbatim>\<open>ENTRY_FIELDS\<close>: the
  entry with the tags \<^verbatim>\<open>'a, b'\<close> is read back with the array \<^verbatim>\<open>['a', 'b']\<close>.
\<close>

theorem putEntries_tags_counterexample:
  "get_prop tagged_entry ''tags'' = JString ''a, b''
   \<and> map_option (\<lambda>entry. get_prop entry ''tags'')
        (get_record (disk (snd (putEntries [tagged_entry] (snd (init fresh_database)))))
           ''entries'' (get_prop tagged_entry ''id''))
     = Some (JArray [JString ''a'', JString ''b''])"
  by code_simp

section \<open>Stored tags\<close>






section \<open>Atomicity of putEntries\<close>

lemma written_dom: "k \<in> kf ` set es \<Longrightarrow> written kf vf es m k \<noteq> None"
proof (induction es arbitrary: m)
  case Nil
  then show ?case by simp
next
  case (Cons a es)
  show ?case
  proof (cases "k \<in> kf ` set es")
    case True
    with Cons.IH show ?thesis by simp
  next
    case False
    with Cons.prems have "k = kf a" by simp
    with written_other [OF False] show ?thesis by simp
  qed
qed










lemma tx_after_failed:
  "tx_after tx tx' \<Longrightarrow> tx_failed tx = Some e \<Longrightarrow> tx_failed tx' = Some e"
  by (simp add: tx_after_def)
















section \<open>The feed list and its backups\<close>

lemma tx_clear_writable:
  assumes w: "writable tx name kp"
  shows "\<exists>tx'. tx_clear tx name = Inr tx' \<and> writable tx' name kp
           \<and> lookup (tx_stores tx') name = Map.empty"
proof -
  from w obtain st where st: "find_store (tx_stores tx) name = Some st" "keyPath st = kp"
    by (auto simp: writable_def split: option.splits)
  define tx' where "tx' = tx\<lparr>tx_stores := update_store name (st\<lparr>records := []\<rparr>) (tx_stores tx)\<rparr>"
  have c: "tx_clear tx name = Inr tx'"
    using w st by (simp add: tx_clear_def writable_def tx_request_def tx'_def)
  have w': "writable tx' name kp"
    using w st by (simp add: writable_def tx'_def find_store_update_store_same)
  have l: "lookup (tx_stores tx') name = Map.empty"
    by (simp add: lookup_def tx'_def find_store_update_store_same)
  from c w' l show ?thesis by blast
qed

lemma put_feeds_valid:
  assumes "writable tx ''feeds'' ''feedID''"
    "\<forall>f\<in>set fs. to_key (get_prop f ''feedID'') \<noteq> None"
  shows "\<exists>tx'. put_feeds fs tx = (None, tx') \<and> writable tx' ''feeds'' ''feedID''
           \<and> lookup (tx_stores tx') ''feeds''
               = written (key_at ''feedID'') (\<lambda>f. f) fs (lookup (tx_stores tx) ''feeds'')"
  using assms
proof (induction fs arbitrary: tx)
  case Nil
  then show ?case by simp
next
  case (Cons f fs)
  from Cons.prems(2) obtain k where k: "to_key (get_prop f ''feedID'') = Some k" by auto
  then have ka: "key_at ''feedID'' f = k" by (simp add: key_at_def)
  from tx_put_valid [OF Cons.prems(1) k] obtain tx1 where
    p: "tx_put tx ''feeds'' f = Inr tx1"
    and w: "writable tx1 ''feeds'' ''feedID''"
    and l: "lookup (tx_stores tx1) ''feeds'' = (lookup (tx_stores tx) ''feeds'')(k \<mapsto> f)"
    using Cons.prems(1) by blast
  from Cons.IH [OF w] Cons.prems(2) obtain tx' where
    "put_feeds fs tx1 = (None, tx')" "writable tx' ''feeds'' ''feedID''"
    "lookup (tx_stores tx') ''feeds''
       = written (key_at ''feedID'') (\<lambda>f. f) fs (lookup (tx_stores tx1) ''feeds'')"
    by auto
  with p l ka show ?case by simp
qed

lemma saveFeeds_events:
  "set (events (snd (saveFeeds fs s)))
     \<subseteq> set (events s) \<union> {BeginTransaction [''feeds''], StorageSet ''local'', StorageSet ''sync''}"
  by (auto simp: saveFeeds_def Let_def emit_def priv_saveFeedBackups_def finish_def
      split: sum.splits prod.splits option.splits)

lemma saveFeeds_valid:
  assumes op: "priv_db s" and io: "\<not> io_error s"
    and hf: "has_store (disk s) ''feeds'' ''feedID''"
    and keys: "\<forall>f\<in>set fs. to_key (get_prop f ''feedID'') \<noteq> None"
  shows "\<exists>s'. saveFeeds fs s = (Fulfilled (), s')
           \<and> lookup (stores (disk s')) ''feeds'' = written (key_at ''feedID'') (\<lambda>f. f) fs Map.empty"
proof -
  from has_store_find [OF hf]
  obtain tx where tx: "begin_transaction (disk s) (io_error s) [''feeds''] True = Inr tx"
    using begin_ok [of "disk s" "[''feeds'']"] by auto
  have w: "writable tx ''feeds'' ''feedID''" using begin_writable [OF hf _ io tx] by simp
  from tx_clear_writable [OF w] obtain tx1 where
    c: "tx_clear tx ''feeds'' = Inr tx1" and w1: "writable tx1 ''feeds'' ''feedID''"
    and l1: "lookup (tx_stores tx1) ''feeds'' = Map.empty"
    by blast
  from put_feeds_valid [OF w1 keys] obtain tx2 where
    p: "put_feeds fs tx1 = (None, tx2)" and w2: "writable tx2 ''feeds'' ''feedID''"
    and l2: "lookup (tx_stores tx2) ''feeds''
               = written (key_at ''feedID'') (\<lambda>f. f) fs (lookup (tx_stores tx1) ''feeds'')"
    by blast
  from w2 have nf: "tx_failed tx2 = None" by (simp add: writable_def)
  have "saveFeeds fs s = (Fulfilled (), priv_saveFeedBackups fs
          ((emit [BeginTransaction [''feeds'']] s)\<lparr>disk := (disk s)\<lparr>stores := tx_stores tx2\<rparr>\<rparr>))"
    using op tx c p nf by (simp add: saveFeeds_def Let_def finish_def emit_def)
  with l1 l2 show ?thesis by (simp add: priv_saveFeedBackups_def emit_def Let_def)
qed

lemma loadFeeds_local:
  assumes op: "priv_db s" and io: "\<not> io_error s"
    and st: "find_store (stores (disk s)) ''feeds'' = Some st" "records st = []"
    and loc: "local_feeds s = Some L" "L \<noteq> []"
  shows "loadFeeds s = (Fulfilled (),
           (snd (saveFeeds L (emit [BeginTransaction [''feeds''], StorageGet ''local''] s)))\<lparr>priv_feeds := L\<rparr>)"
proof -
  have tx: "begin_transaction (disk s) (io_error s) [''feeds''] False
      = Inr \<lparr>tx_stores = stores (disk s), tx_scope = [''feeds''], tx_readwrite = False,
             tx_io = io_error s, tx_failed = None\<rparr>"
    using st(1) by (simp add: begin_transaction_def)
  have e: "emit [StorageGet ''local''] (emit [BeginTransaction [''feeds'']] s)
      = emit [BeginTransaction [''feeds''], StorageGet ''local''] s"
    by (simp add: emit_def)
  show ?thesis
    using op io st loc tx
    by (simp add: loadFeeds_def Let_def storage_get_def e) (simp add: emit_def)
qed

lemma written_range:
  "written kf (\<lambda>f. f) fs m k = Some v \<Longrightarrow> v \<in> set fs \<or> m k = Some v"
  by (induction fs arbitrary: m) (fastforce split: if_splits)+

text \<open>
  Claim C6. With the database open, the feed store empty and a non-empty list in the
  local backup, \<^verbatim>\<open>loadFeeds\<close> fulfils with that list as \<^verbatim>\<open>Database.feeds\<close>; the sync backup
  is not read; \<^verbatim>\<open>saveFeeds\<close> is called with the list, and where the feeds have valid keys
  as \<^verbatim>\<open>feedID\<close> the feed store then holds the feeds of the list and nothing else, each
  under its \<^verbatim>\<open>feedID\<close> when no two feeds share one.
\<close>

theorem loadFeeds_restores_local_backup:
  assumes "priv_db s" "\<not> io_error s"
    and "find_store (stores (disk s)) ''feeds'' = Some st" "records st = []"
    and "local_feeds s = Some L" "L \<noteq> []"
  shows "\<exists>s'. loadFeeds s = (Fulfilled (), s') \<and> priv_feeds s' = L
      \<and> s' = (snd (saveFeeds L (emit [BeginTransaction [''feeds''], StorageGet ''local''] s)))
               \<lparr>priv_feeds := L\<rparr>
      \<and> (StorageGet ''sync'' \<in> set (events s') \<longrightarrow> StorageGet ''sync'' \<in> set (events s))
      \<and> (keyPath st = ''feedID'' \<and> (\<forall>f\<in>set L. to_key (get_prop f ''feedID'') \<noteq> None) \<longrightarrow>
           (\<forall>k v. lookup (stores (disk s')) ''feeds'' k = Some v \<longrightarrow> v \<in> set L)
           \<and> (\<forall>f\<in>set L. get_record (disk s') ''feeds'' (get_prop f ''feedID'') \<noteq> None)
           \<and> (distinct (map (key_at ''feedID'') L) \<longrightarrow>
                (\<forall>f\<in>set L. get_record (disk s') ''feeds'' (get_prop f ''feedID'') = Some f)))"
proof -
  let ?s1 = "emit [BeginTransaction [''feeds''], StorageGet ''local''] s"
  let ?s' = "(snd (saveFeeds L ?s1))\<lparr>priv_feeds := L\<rparr>"
  have load: "loadFeeds s = (Fulfilled (), ?s')"
    using assms by (rule loadFeeds_local)
  have ev: "StorageGet ''sync'' \<in> set (events ?s') \<longrightarrow> StorageGet ''sync'' \<in> set (events s)"
    using saveFeeds_events [of L ?s1] by (auto simp: emit_def)
  have store: "(\<forall>k v. lookup (stores (disk ?s')) ''feeds'' k = Some v \<longrightarrow> v \<in> set L)
           \<and> (\<forall>f\<in>set L. get_record (disk ?s') ''feeds'' (get_prop f ''feedID'') \<noteq> None)
           \<and> (distinct (map (key_at ''feedID'') L) \<longrightarrow>
                (\<forall>f\<in>set L. get_record (disk ?s') ''feeds'' (get_prop f ''feedID'') = Some f))"
    if kp: "keyPath st = ''feedID''" and keys: "\<forall>f\<in>set L. to_key (get_prop f ''feedID'') \<noteq> None"
  proof -
    have op1: "priv_db ?s1" and io1: "\<not> io_error ?s1"
      using assms(1,2) by (simp_all add: emit_def)
    have hf: "has_store (disk ?s1) ''feeds'' ''feedID''"
      using assms(3) kp by (simp add: has_store_def emit_def)
    from saveFeeds_valid [OF op1 io1 hf keys] obtain s2 where
      sv: "saveFeeds L ?s1 = (Fulfilled (), s2)"
      and l: "lookup (stores (disk s2)) ''feeds'' = written (key_at ''feedID'') (\<lambda>f. f) L Map.empty"
      by blast
    have l': "lookup (stores (disk ?s')) ''feeds'' = written (key_at ''feedID'') (\<lambda>f. f) L Map.empty"
      using sv l by simp
    have a: "\<forall>k v. lookup (stores (disk ?s')) ''feeds'' k = Some v \<longrightarrow> v \<in> set L"
      unfolding l' using written_range [of "key_at ''feedID''" L Map.empty] by auto
    have b: "get_record (disk ?s') ''feeds'' (get_prop f ''feedID'') \<noteq> None
        \<and> (distinct (map (key_at ''feedID'') L) \<longrightarrow>
              get_record (disk ?s') ''feeds'' (get_prop f ''feedID'') = Some f)"
      if f: "f \<in> set L" for f
    proof -
      from keys f obtain k where k: "to_key (get_prop f ''feedID'') = Some k" by auto
      then have ka: "key_at ''feedID'' f = k" by (simp add: key_at_def)
      from f ka have "k \<in> key_at ''feedID'' ` set L" by auto
      from written_dom [OF this, of "\<lambda>f. f" Map.empty]
        written_distinct [OF _ f, of "key_at ''feedID''" "\<lambda>f. f" Map.empty] l' ka
      show ?thesis by (simp add: get_record_lookup [OF k])
    qed
    from a b show ?thesis by blast
  qed
  have pf: "priv_feeds ?s' = L" by simp
  from store have store': "keyPath st = ''feedID'' \<and> (\<forall>f\<in>set L. to_key (get_prop f ''feedID'') \<noteq> None) \<longrightarrow>
           (\<forall>k v. lookup (stores (disk ?s')) ''feeds'' k = Some v \<longrightarrow> v \<in> set L)
           \<and> (\<forall>f\<in>set L. get_record (disk ?s') ''feeds'' (get_prop f ''feedID'') \<noteq> None)
           \<and> (distinct (map (key_at ''feedID'') L) \<longrightarrow>
                (\<forall>f\<in>set L. get_record (disk ?s') ''feeds'' (get_prop f ''feedID'') = Some f))"
    by blast
  show ?thesis
    by (rule exI [of _ ?s']) (intro conjI load pf refl ev store')
qed

theorem loadFeeds_restores_local_backup_witness:
  "priv_db backup_database \<and> \<not> io_error backup_database
   \<and> map_option records (find_store (stores (disk backup_database)) ''feeds'') = Some []
   \<and> local_feeds backup_database = Some [[(''feedID'', JNumber (Finite 5))]]
   \<and> sync_feeds backup_database = Some [[(''feedID'', JNumber (Finite 9))]]
   \<and> (\<exists>s'. loadFeeds backup_database = (Fulfilled (), s')
         \<and> priv_feeds s' = [[(''feedID'', JNumber (Finite 5))]]
         \<and> (StorageGet ''sync'' \<in> set (events s') \<longrightarrow> StorageGet ''sync'' \<in> set (events backup_database)))
   \<and> StorageGet ''sync'' \<notin> set (events (snd (loadFeeds backup_database)))
   \<and> get_record (disk (snd (loadFeeds backup_database))) ''feeds'' (JNumber (Finite 5))
       = Some [(''feedID'', JNumber (Finite 5))]
   \<and> get_record (disk (snd (loadFeeds backup_database))) ''feeds'' (JNumber (Finite 9)) = None"
proof -
  let ?L = "[[(''feedID'', JNumber (Finite 5))]]"
  obtain st where st: "find_store (stores (disk backup_database)) ''feeds'' = Some st"
    and rs: "records st = []"
  proof -
    have "map_option records (find_store (stores (disk backup_database)) ''feeds'') = Some []"
      by code_simp
    then show ?thesis using that by auto
  qed
  have h1: "priv_db backup_database" by code_simp
  have h2: "\<not> io_error backup_database" by code_simp
  have h3: "local_feeds backup_database = Some ?L" by code_simp
  have h4: "sync_feeds backup_database = Some [[(''feedID'', JNumber (Finite 9))]]" by code_simp
  have h5: "?L \<noteq> []" by simp
  have c1: "StorageGet ''sync'' \<notin> set (events (snd (loadFeeds backup_database)))" by code_simp
  have c2: "get_record (disk (snd (loadFeeds backup_database))) ''feeds'' (JNumber (Finite 5))
       = Some [(''feedID'', JNumber (Finite 5))]" by code_simp
  have c3: "get_record (disk (snd (loadFeeds backup_database))) ''feeds'' (JNumber (Finite 9)) = None"
    by code_simp
  from loadFeeds_restores_local_backup [OF h1 h2 st rs h3 h5]
  have "\<exists>s'. loadFeeds backup_database = (Fulfilled (), s') \<and> priv_feeds s' = ?L
         \<and> (StorageGet ''sync'' \<in> set (events s') \<longrightarrow> StorageGet ''sync'' \<in> set (events backup_database))"
    by blast
  moreover have "map_option records (find_store (stores (disk backup_database)) ''feeds'') = Some []"
    using st rs by simp
  ultimately show ?thesis using h1 h2 h3 h4 c1 c2 c3 by blast
qed

section \<open>Sort order and direction\<close>

lemma strict_equal_undefined: "strict_equal x JUndefined = (x = JUndefined)"
  by (cases x) auto

lemma strict_equal_string: "strict_equal x (JString t) = (x = JString t)"
  by (cases x) auto

lemma active_feeds_total:
  assumes "folders q = None \<or> acyclic (feed_edges fs)"
  shows "\<exists>af q'. (case folders q of
              None \<Rightarrow> Some (fs, q)
            | Some fl \<Rightarrow> map_option (\<lambda>fs. (fs, q\<lparr>folders := Some []\<rparr>)) (expand_folders fs fl)) = Some (af, q')"
  using assms by (auto simp: expand_folders_acyclic split: option.splits)

lemma priv_filters_bad_order:
  assumes "folders q = None \<or> acyclic (feed_edges fs)"
    and "sortOrder q \<noteq> JUndefined" "sortOrder q \<noteq> JString ''date''"
  shows "\<exists>q'. priv_filters q fs = Some (Inl (Thrown (''Invalid sort order: '' @ to_string (sortOrder q))), q')"
proof -
  from active_feeds_total [OF assms(1)] obtain af q' where
    "(case folders q of
              None \<Rightarrow> Some (fs, q)
            | Some fl \<Rightarrow> map_option (\<lambda>fs. (fs, q\<lparr>folders := Some []\<rparr>)) (expand_folders fs fl)) = Some (af, q')"
    by blast
  with assms(2,3) show ?thesis
    by (simp add: priv_filters_def Let_def strict_equal_undefined strict_equal_string split: prod.splits)
qed

lemma priv_filters_good_order:
  assumes "folders q = None \<or> acyclic (feed_edges fs)"
    and "sortOrder q = JUndefined \<or> sortOrder q = JString ''date''"
  shows "\<exists>f q'. priv_filters q fs = Some (Inr f, q')
      \<and> sort_direction f = sortDirection q \<and> sort_limit f = limit q \<and> sort_offset f = offset q"
proof -
  from active_feeds_total [OF assms(1)] obtain af q' where
    "(case folders q of
              None \<Rightarrow> Some (fs, q)
            | Some fl \<Rightarrow> map_option (\<lambda>fs. (fs, q\<lparr>folders := Some []\<rparr>)) (expand_folders fs fl)) = Some (af, q')"
    by blast
  with assms(2) show ?thesis
    by (auto simp: priv_filters_def Let_def strict_equal_undefined strict_equal_string split: prod.splits)
qed

lemma init_opened: "priv_db s \<Longrightarrow> init s = (Fulfilled (), s)"
  by (simp add: init_def)

text \<open>
  Claim C5, as amended. \<^verbatim>\<open>count()\<close> first awaits \<^verbatim>\<open>Database.init()\<close>. When that
  fulfils, and the folder loop ends (no folders are given or the parent relation of the
  feed list has no cycle), a query whose \<^verbatim>\<open>sortOrder\<close> is defined and not \<^verbatim>\<open>'date'\<close>, or
  whose \<^verbatim>\<open>sortDirection\<close> is not \<^verbatim>\<open>'desc'\<close>, is rejected with the thrown string, and the
  state is the one \<^verbatim>\<open>init()\<close> left: \<^verbatim>\<open>count()\<close> has begun no transaction and opened no index
  cursor. On a database that is already initialised \<^verbatim>\<open>init()\<close> does nothing, and the state
  with its record of storage calls is unchanged.
\<close>

theorem count_rejects_bad_sort:
  assumes "(sortOrder q \<noteq> JUndefined \<and> sortOrder q \<noteq> JString ''date'') \<or> sortDirection q \<noteq> JString ''desc''"
    and "init s = (Fulfilled (), s1)"
    and "folders q = None \<or> acyclic (feed_edges (priv_feeds s1))"
  shows "\<exists>msg q'. count q s = Some (Rejected (Thrown msg), q', s1)
           \<and> (msg = ''Invalid sort order: '' @ to_string (sortOrder q) \<or> msg = ''asc not supported yet'')
           \<and> (priv_db s \<longrightarrow> s1 = s)"
proof -
  have same: "priv_db s \<longrightarrow> s1 = s" using assms(2) by (auto simp: init_opened)
  show ?thesis
  proof (cases "sortOrder q \<noteq> JUndefined \<and> sortOrder q \<noteq> JString ''date''")
    case True
    from priv_filters_bad_order [OF assms(3)] True obtain q' where
      "priv_filters q (priv_feeds s1)
         = Some (Inl (Thrown (''Invalid sort order: '' @ to_string (sortOrder q))), q')"
      by blast
    with assms(2) same show ?thesis by (simp add: count_def)
  next
    case False
    with assms(1) have dir: "sortDirection q \<noteq> JString ''desc''" by blast
    from False have "sortOrder q = JUndefined \<or> sortOrder q = JString ''date''" by blast
    from priv_filters_good_order [OF assms(3) this] obtain f q' where
      f: "priv_filters q (priv_feeds s1) = Some (Inr f, q')" "sort_direction f = sortDirection q"
      by blast
    with dir have "priv_searchEngine f = Inl (Thrown ''asc not supported yet'')"
      by (simp add: priv_searchEngine_def strict_equal_string)
    with assms(2) f(1) same show ?thesis by (simp add: count_def)
  qed
qed

theorem count_rejects_bad_sort_witness:
  "priv_db example_database
   \<and> init example_database = (Fulfilled (), example_database)
   \<and> (\<exists>msg q'. count (default_query\<lparr>sortOrder := JString ''title''\<rparr>) example_database
                   = Some (Rejected (Thrown msg), q', example_database)
          \<and> (msg = ''Invalid sort order: '' @ to_string (JString ''title'')
               \<or> msg = ''asc not supported yet''))
   \<and> (\<exists>msg q'. count (default_query\<lparr>sortDirection := JString ''asc''\<rparr>) example_database
                   = Some (Rejected (Thrown msg), q', example_database))
   \<and> map_option fst (count (default_query\<lparr>sortOrder := JString ''title''\<rparr>) example_database)
       = Some (Rejected (Thrown ''Invalid sort order: title''))
   \<and> map_option fst (count (default_query\<lparr>sortDirection := JString ''asc''\<rparr>) example_database)
       = Some (Rejected (Thrown ''asc not supported yet''))"
proof -
  let ?q1 = "default_query\<lparr>sortOrder := JString ''title''\<rparr>"
  let ?q2 = "default_query\<lparr>sortDirection := JString ''asc''\<rparr>"
  have h1: "priv_db example_database" by code_simp
  have h2: "init example_database = (Fulfilled (), example_database)"
    using h1 by (rule init_opened)
  have b1: "(sortOrder ?q1 \<noteq> JUndefined \<and> sortOrder ?q1 \<noteq> JString ''date'')
      \<or> sortDirection ?q1 \<noteq> JString ''desc''" by simp
  have b2: "(sortOrder ?q2 \<noteq> JUndefined \<and> sortOrder ?q2 \<noteq> JString ''date'')
      \<or> sortDirection ?q2 \<noteq> JString ''desc''" by simp
  have f1: "folders ?q1 = None \<or> acyclic (feed_edges (priv_feeds example_database))"
    by (simp add: default_query_def)
  have f2: "folders ?q2 = None \<or> acyclic (feed_edges (priv_feeds example_database))"
    by (simp add: default_query_def)
  have c1: "map_option fst (count ?q1 example_database)
       = Some (Rejected (Thrown ''Invalid sort order: title''))" by code_simp
  have c2: "map_option fst (count ?q2 example_database)
       = Some (Rejected (Thrown ''asc not supported yet''))" by code_simp
  from count_rejects_bad_sort [OF b1 h2 f1]
  have a1: "\<exists>msg q'. count ?q1 example_database = Some (Rejected (Thrown msg), q', example_database)
          \<and> (msg = ''Invalid sort order: '' @ to_string (JString ''title'')
               \<or> msg = ''asc not supported yet'')"
    by auto
  from count_rejects_bad_sort [OF b2 h2 f2]
  have a2: "\<exists>msg q'. count ?q2 example_database = Some (Rejected (Thrown msg), q', example_database)"
    by blast
  from h1 h2 a1 a2 c1 c2 show ?thesis by blast
qed

text \<open>
  Claim C5 as stated fails on a database that is not yet initialised. On the profile
  left by version 20, \<^verbatim>\<open>count()\<close> with the sort order \<^verbatim>\<open>'title'\<close> is rejected with the
  configuration error only after \<^verbatim>\<open>init()\<close> has read the storage areas, opened and
  upgraded the database, and the upgrade's cursor has read the entry and rewritten its
  \<^verbatim>\<open>read\<close> field.
\<close>

theorem count_bad_sort_counterexample:
  "events legacy_database = []
   \<and> lookup (stores (disk legacy_database)) ''entries'' (KNumber (Finite 1))
       = Some [(''id'', JNumber (Finite 1)), (''read'', JBool True)]
   \<and> map_option (\<lambda>(r, q', s'). (r, events s', lookup (stores (disk s')) ''entries'' (KNumber (Finite 1))))
        (count (default_query\<lparr>sortOrder := JString ''title''\<rparr>) legacy_database)
     = Some (Rejected (Thrown ''Invalid sort order: title''),
             [StorageGet ''local'', OpenDatabase, BeginTransaction [''feeds''],
              StorageGet ''local'', StorageGet ''sync'', BeginTransaction [''feeds''],
              StorageSet ''local'', StorageSet ''sync'', BeginTransaction [''entries'']],
             Some [(''id'', JNumber (Finite 1)), (''read'', JNumber (Finite 1))])"
  by code_simp

section \<open>Counting\<close>

lemma scan_counts:
  assumes "\<forall>v\<in>set vs. \<exists>b. fn v = Inr b" "0 \<le> ofs"
    and "lim = None \<or> (\<exists>l. lim = Some (Finite l) \<and> 0 \<le> l)"
  shows "\<exists>st'. scan fn vs \<lparr>s_offset = Finite ofs,
                          s_limit = (case lim of None \<Rightarrow> PosInfinity | Some n \<Rightarrow> n),
                          answer = a, totalCallbacks = c\<rparr> = Inr st'
           \<and> answer st' = a + page lim ofs (length (filter (\<lambda>v. fn v = Inr True) vs))"
  using assms
proof (induction vs arbitrary: ofs lim a c)
  case Nil
  then show ?case by (auto simp: page_def)
next
  case (Cons v vs)
  from Cons.prems(1) obtain b where b: "fn v = Inr b" by auto
  from Cons.prems(1) have rest: "\<forall>v\<in>set vs. \<exists>b. fn v = Inr b" by simp
  let ?M = "length (filter (\<lambda>v. fn v = Inr True) vs)"
  show ?case
  proof (cases "lim = Some (Finite 0)")
    case True
    then show ?thesis by (simp add: on_success_def num_le_def page_def)
  next
    case False
    with Cons.prems(3) have pos: "lim = None \<or> (\<exists>l. lim = Some (Finite l) \<and> 0 < l)"
      by (auto simp: less_le)
    then have nle: "\<not> num_le (case lim of None \<Rightarrow> PosInfinity | Some n \<Rightarrow> n) (Finite 0)"
      by (auto simp: num_le_def)
    show ?thesis
    proof (cases b)
      case False
      from Cons.IH [OF rest Cons.prems(2,3), of a "c + 1"] b False nle
      show ?thesis by (simp add: on_success_def)
    next
      case True
      show ?thesis
      proof (cases "0 < ofs")
        case True
        then have o1: "0 \<le> ofs - 1" by simp
        from Cons.IH [OF rest o1 Cons.prems(3), of a "c + 1"] obtain st' where
          st': "scan fn vs \<lparr>s_offset = Finite (ofs - 1),
                          s_limit = (case lim of None \<Rightarrow> PosInfinity | Some n \<Rightarrow> n),
                          answer = a, totalCallbacks = c + 1\<rparr> = Inr st'"
          "answer st' = a + page lim (ofs - 1) ?M"
          by blast
        have "page lim ofs (Suc ?M) = page lim (ofs - 1) ?M"
          using True by (auto simp: page_def nat_diff_distrib split: option.splits number.splits)
        with st' b \<open>b\<close> nle True show ?thesis
          by (simp add: on_success_def)
      next
        case False
        with Cons.prems(2) have o0: "ofs = 0" by simp
        let ?lim' = "map_option num_pred lim"
        from pos have lim': "?lim' = None \<or> (\<exists>l. ?lim' = Some (Finite l) \<and> 0 \<le> l)"
          by auto
        from Cons.IH [OF rest Cons.prems(2) lim', of "a + 1" "c + 1"] obtain st' where
          st': "scan fn vs \<lparr>s_offset = Finite ofs,
                          s_limit = (case ?lim' of None \<Rightarrow> PosInfinity | Some n \<Rightarrow> n),
                          answer = a + 1, totalCallbacks = c + 1\<rparr> = Inr st'"
          "answer st' = a + 1 + page ?lim' ofs ?M"
          by blast
        have l: "(case ?lim' of None \<Rightarrow> PosInfinity | Some n \<Rightarrow> n)
            = num_pred (case lim of None \<Rightarrow> PosInfinity | Some n \<Rightarrow> n)"
          by (cases lim) auto
        have "page lim ofs (Suc ?M) = 1 + page ?lim' ofs ?M"
          using pos o0 by (auto simp: page_def)
        with st' l b \<open>b\<close> nle o0 show ?thesis
          by (simp add: on_success_def)
      qed
    qed
  qed
qed


lemma mset_insort_by: "mset (insort_by lt x xs) = add_mset x (mset xs)"
  by (induction xs) auto

lemma mset_sort_by: "mset (sort_by lt xs) = mset xs"
  unfolding sort_by_def by (induction xs) (auto simp: mset_insort_by)

lemma length_filter_size: "length (filter P xs) = size (filter_mset P (mset xs))"
  by (metis mset_filter size_mset)

lemma index_keys_single: "\<not> multiEntry ix \<Longrightarrow> length (index_keys ix v) \<le> 1"
  by (auto simp: index_keys_def split: extracted.splits key.splits)

lemma index_values_unsorted:
  assumes "\<not> multiEntry ix"
  shows "map (\<lambda>(ik, pk, v). v) (concat (map (\<lambda>(pk, v). map (\<lambda>ik. (ik, pk, v)) (index_keys ix v)) rs))
           = map snd (filter (\<lambda>(k, v). indexed ix v) rs)"
proof (induction rs)
  case Nil
  then show ?case by simp
next
  case (Cons r rs)
  obtain pk v where r: "r = (pk, v)" by (cases r)
  from index_keys_single [OF assms, of v]
  have "index_keys ix v = [] \<or> (\<exists>k. index_keys ix v = [k])"
    by (cases "index_keys ix v") auto
  with Cons r show ?case by (auto simp: indexed_def)
qed

lemma index_values_mset:
  assumes "\<not> multiEntry ix"
  shows "mset (map (\<lambda>(ik, pk, v). v) (index_entries ix rs))
           = mset (map snd (filter (\<lambda>(k, v). indexed ix v) rs))"
proof -
  have "mset (map (\<lambda>(ik, pk, v). v) (index_entries ix rs))
      = image_mset (\<lambda>(ik, pk, v). v)
          (mset (concat (map (\<lambda>(pk, v). map (\<lambda>ik. (ik, pk, v)) (index_keys ix v)) rs)))"
    by (simp add: index_entries_def mset_sort_by)
  also have "\<dots> = mset (map (\<lambda>(ik, pk, v). v)
          (concat (map (\<lambda>(pk, v). map (\<lambda>ik. (ik, pk, v)) (index_keys ix v)) rs)))"
    by simp
  finally show ?thesis by (simp only: index_values_unsorted [OF assms])
qed

lemma index_values_matching:
  assumes "\<not> multiEntry ix"
  shows "length (filter (\<lambda>v. fn v = Inr True) (map (\<lambda>(ik, pk, v). v) (index_entries ix rs)))
           = matching fn ix rs"
proof -
  have "length (filter (\<lambda>v. fn v = Inr True) (map (\<lambda>(ik, pk, v). v) (index_entries ix rs)))
      = length (filter (\<lambda>v. fn v = Inr True) (map snd (filter (\<lambda>(k, v). indexed ix v) rs)))"
    by (simp only: length_filter_size index_values_mset [OF assms])
  also have "\<dots> = matching fn ix rs"
    by (induction rs) (auto simp: matching_def)
  finally show ?thesis .
qed

lemma index_values_set:
  assumes "\<not> multiEntry ix"
  shows "set (map (\<lambda>(ik, pk, v). v) (index_entries ix rs)) = {v. \<exists>k. (k, v) \<in> set rs \<and> indexed ix v}"
proof -
  have "set (map (\<lambda>(ik, pk, v). v) (index_entries ix rs))
      = set_mset (mset (map (\<lambda>(ik, pk, v). v) (index_entries ix rs)))"
    by simp
  also have "\<dots> = set (map snd (filter (\<lambda>(k, v). indexed ix v) rs))"
    by (simp only: index_values_mset [OF assms] set_mset_mset)
  also have "\<dots> = {v. \<exists>k. (k, v) \<in> set rs \<and> indexed ix v}"
    by force
  finally show ?thesis .
qed

lemma initial_scan_eq:
  "sort_offset f = Some (Finite ofs) \<Longrightarrow>
     initial_scan f = \<lparr>s_offset = Finite ofs,
                       s_limit = (case sort_limit f of None \<Rightarrow> PosInfinity | Some n \<Rightarrow> n),
                       answer = 0, totalCallbacks = 0\<rparr>"
  by (simp add: initial_scan_def)

lemma count_scans:
  assumes init: "init s = (Fulfilled (), s1)" and io: "\<not> io_error s1"
    and f: "priv_filters q (priv_feeds s1) = Some (Inr f, q')"
    and dir: "sort_direction f = JString ''desc''"
    and ofs: "sort_offset f = Some (Finite ofs)" "0 \<le> ofs"
    and lim: "sort_limit f = None \<or> (\<exists>l. sort_limit f = Some (Finite l) \<and> 0 \<le> l)"
    and st: "find_store (stores (disk s1)) ''entries'' = Some st"
    and ix: "map_of (indexes st) ''deleted_read_feedID_date'' = Some ix" "\<not> multiEntry ix"
    and dfn: "\<forall>(k, v)\<in>set (records st). indexed ix v \<longrightarrow> (\<exists>b. filterFunction f v = Inr b)"
  shows "count q s = Some (Fulfilled (page (sort_limit f) ofs (matching (filterFunction f) ix (records st))),
           q', emit [BeginTransaction [''entries''], OpenIndexCursor ''deleted_read_feedID_date''] s1)"
proof -
  let ?vs = "map (\<lambda>(ik, pk, v). v) (index_entries ix (records st))"
  have se: "priv_searchEngine f = Inr (''deleted_read_feedID_date'', filterFunction f)"
    using dir by (simp add: priv_searchEngine_def)
  have oc: "open_index_cursor (disk s1) ''deleted_read_feedID_date'' = Inr ?vs"
    using st ix(1) by (simp add: open_index_cursor_def)
  have "\<forall>v\<in>set ?vs. \<exists>b. filterFunction f v = Inr b"
    using dfn unfolding index_values_set [OF ix(2)] by blast
  from scan_counts [OF this ofs(2) lim, of 0 0] obtain st' where
    sc0: "scan (filterFunction f) ?vs \<lparr>s_offset = Finite ofs,
                       s_limit = (case sort_limit f of None \<Rightarrow> PosInfinity | Some n \<Rightarrow> n),
                       answer = 0, totalCallbacks = 0\<rparr> = Inr st'"
    and an0: "answer st' = 0 + page (sort_limit f) ofs
                (length (filter (\<lambda>v. filterFunction f v = Inr True) ?vs))"
    by blast
  from sc0 have sc: "scan (filterFunction f) ?vs (initial_scan f) = Inr st'"
    by (simp only: initial_scan_eq [OF ofs(1)])
  from an0 have an: "answer st' = page (sort_limit f) ofs (matching (filterFunction f) ix (records st))"
    by (simp only: index_values_matching [OF ix(2)] add_0)
  show ?thesis
    using init f se oc io sc an
    by (simp add: count_def Let_def emit_def)
qed


lemma on_success_steps:
  "(\<not> num_le (s_limit st0) (Finite 0) \<and> fn v = Inr False \<longrightarrow>
      on_success fn v st0 = Inr (True, st0\<lparr>totalCallbacks := totalCallbacks st0 + 1\<rparr>))
   \<and> (\<not> num_le (s_limit st0) (Finite 0) \<and> fn v = Inr True \<and> num_less (Finite 0) (s_offset st0) \<longrightarrow>
      on_success fn v st0
        = Inr (True, st0\<lparr>s_offset := num_pred (s_offset st0), totalCallbacks := totalCallbacks st0 + 1\<rparr>))
   \<and> (\<not> num_le (s_limit st0) (Finite 0) \<and> fn v = Inr True \<and> \<not> num_less (Finite 0) (s_offset st0) \<longrightarrow>
      on_success fn v st0
        = Inr (True, st0\<lparr>s_limit := num_pred (s_limit st0), answer := answer st0 + 1,
                         totalCallbacks := totalCallbacks st0 + 1\<rparr>))
   \<and> (num_le (s_limit st0) (Finite 0) \<longrightarrow>
      scan fn (v # vs) st0 = Inr (st0\<lparr>totalCallbacks := totalCallbacks st0 + 1\<rparr>))"
  by (simp add: on_success_def Let_def)

text \<open>
  Claim C4, as amended. Let the database be initialised with the entries store and its
  index \<^verbatim>\<open>deleted_read_feedID_date\<close>, the sort settings be valid, the folder loop end,
  the offset be \<open>O \<ge> 0\<close> and the limit \<open>L \<ge> 0\<close> or unspecified, and no backend error occur.
  Then \<^verbatim>\<open>_filters\<close> compiles the query, and when the predicate throws on no record of
  the index, \<^verbatim>\<open>count()\<close> fulfils with \<open>min(L, max(0, M - O))\<close> (\<open>max(0, M - O)\<close> without a
  limit), where \<open>M\<close> is the number of entries that are in the index and pass the
  predicate. In one call of the cursor's handler with the limit above zero, a record
  that fails the predicate changes neither offset, limit nor answer; a passing record
  lowers a positive offset and otherwise raises the answer and lowers the limit. A
  handler that finds the limit at or below zero returns without \<^verbatim>\<open>cursor.continue()\<close>:
  the scan ends there.
\<close>

theorem count_paginates:
  assumes "init s = (Fulfilled (), s1)" and "\<not> io_error s1"
    and "folders q = None \<or> acyclic (feed_edges (priv_feeds s1))"
    and "sortOrder q = JUndefined \<or> sortOrder q = JString ''date''"
    and "sortDirection q = JString ''desc''"
    and "offset q = Some (Finite ofs)" and "0 \<le> ofs"
    and "limit q = None \<or> (\<exists>l. limit q = Some (Finite l) \<and> 0 \<le> l)"
    and "find_store (stores (disk s1)) ''entries'' = Some st"
    and "map_of (indexes st) ''deleted_read_feedID_date'' = Some ix" and "\<not> multiEntry ix"
  shows "(\<exists>f q'. priv_filters q (priv_feeds s1) = Some (Inr f, q')
           \<and> ((\<forall>(k, v)\<in>set (records st). indexed ix v \<longrightarrow> \<not> isl (filterFunction f v)) \<longrightarrow>
                (\<exists>s2. count q s
                   = Some (Fulfilled (page (limit q) ofs (matching (filterFunction f) ix (records st))),
                           q', s2))))
     \<and> (\<not> num_le (s_limit st0) (Finite 0) \<and> fn v = Inr False \<longrightarrow>
          on_success fn v st0 = Inr (True, st0\<lparr>totalCallbacks := totalCallbacks st0 + 1\<rparr>))
     \<and> (\<not> num_le (s_limit st0) (Finite 0) \<and> fn v = Inr True \<and> num_less (Finite 0) (s_offset st0) \<longrightarrow>
          on_success fn v st0
            = Inr (True, st0\<lparr>s_offset := num_pred (s_offset st0),
                             totalCallbacks := totalCallbacks st0 + 1\<rparr>))
     \<and> (\<not> num_le (s_limit st0) (Finite 0) \<and> fn v = Inr True \<and> \<not> num_less (Finite 0) (s_offset st0) \<longrightarrow>
          on_success fn v st0
            = Inr (True, st0\<lparr>s_limit := num_pred (s_limit st0), answer := answer st0 + 1,
                             totalCallbacks := totalCallbacks st0 + 1\<rparr>))
     \<and> (num_le (s_limit st0) (Finite 0) \<longrightarrow>
          scan fn (v # vs) st0 = Inr (st0\<lparr>totalCallbacks := totalCallbacks st0 + 1\<rparr>))"
proof -
  from priv_filters_good_order [OF assms(3,4)] obtain f q' where
    f: "priv_filters q (priv_feeds s1) = Some (Inr f, q')"
    and sf: "sort_direction f = sortDirection q" "sort_limit f = limit q" "sort_offset f = offset q"
    by blast
  have "\<exists>s2. count q s
      = Some (Fulfilled (page (limit q) ofs (matching (filterFunction f) ix (records st))), q', s2)"
    if dfn: "\<forall>(k, v)\<in>set (records st). indexed ix v \<longrightarrow> \<not> isl (filterFunction f v)"
  proof -
    have d: "\<forall>(k, v)\<in>set (records st). indexed ix v \<longrightarrow> (\<exists>b. filterFunction f v = Inr b)"
    proof (clarify)
      fix k v
      assume "(k, v) \<in> set (records st)" "indexed ix v"
      with dfn have "\<not> isl (filterFunction f v)" by blast
      then show "\<exists>b. filterFunction f v = Inr b" by (cases "filterFunction f v") auto
    qed
    have dir: "sort_direction f = JString ''desc''" using sf(1) assms(5) by simp
    have o: "sort_offset f = Some (Finite ofs)" using sf(3) assms(6) by simp
    have l: "sort_limit f = None \<or> (\<exists>l. sort_limit f = Some (Finite l) \<and> 0 \<le> l)"
      using sf(2) assms(8) by simp
    from count_scans [OF assms(1,2) f dir o assms(7) l assms(9,10,11) d] sf(2)
    show ?thesis by simp
  qed
  with f have main: "\<exists>f q'. priv_filters q (priv_feeds s1) = Some (Inr f, q')
           \<and> ((\<forall>(k, v)\<in>set (records st). indexed ix v \<longrightarrow> \<not> isl (filterFunction f v)) \<longrightarrow>
                (\<exists>s2. count q s
                   = Some (Fulfilled (page (limit q) ofs (matching (filterFunction f) ix (records st))),
                           q', s2)))"
    by blast
  from main on_success_steps [of st0 fn v vs] show ?thesis by (rule conjI)
qed

theorem count_paginates_witness:
  "init paged_database = (Fulfilled (), paged_database) \<and> \<not> io_error paged_database
   \<and> folders (default_query\<lparr>read := JBool False, deleted := JNumber (Finite 0),
                  offset := Some (Finite 1), limit := Some (Finite 5)\<rparr>) = None
   \<and> find_store (stores (disk paged_database)) ''entries''
       = Some (the (find_store (stores (disk paged_database)) ''entries''))
   \<and> map_of (indexes (the (find_store (stores (disk paged_database)) ''entries'')))
         ''deleted_read_feedID_date'' = Some composite_index
   \<and> \<not> multiEntry composite_index
   \<and> (\<exists>f q' s2.
         priv_filters (default_query\<lparr>read := JBool False, deleted := JNumber (Finite 0),
                  offset := Some (Finite 1), limit := Some (Finite 5)\<rparr>) (priv_feeds paged_database)
           = Some (Inr f, q')
         \<and> matching (filterFunction f) composite_index
              (records (the (find_store (stores (disk paged_database)) ''entries''))) = 2
         \<and> count (default_query\<lparr>read := JBool False, deleted := JNumber (Finite 0),
                  offset := Some (Finite 1), limit := Some (Finite 5)\<rparr>) paged_database
             = Some (Fulfilled (page (Some (Finite 5)) 1 2), q', s2))
   \<and> page (Some (Finite 5)) 1 2 = 1
   \<and> map_option fst
        (count (default_query\<lparr>read := JBool False, deleted := JNumber (Finite 0),
                  offset := Some (Finite 1), limit := Some (Finite 5)\<rparr>) paged_database)
       = Some (Fulfilled 1)"
proof -
  let ?q = "default_query\<lparr>read := JBool False, deleted := JNumber (Finite 0),
                  offset := Some (Finite 1), limit := Some (Finite 5)\<rparr>"
  let ?st = "the (find_store (stores (disk paged_database)) ''entries'')"
  let ?F = "\<lparr>filters_feeds = [JNumber (Finite 1)], entry_read = JNumber (Finite 0),
             entry_starred = JUndefined, entry_deleted = JNumber (Finite 0), entry_tags = None,
             fullTextSearch = JUndefined, sort_direction = JString ''desc'',
             sort_limit = Some (Finite 5), sort_offset = Some (Finite 1),
             sort_start = JUndefined, sort_end = JUndefined\<rparr>"
  have op: "priv_db paged_database" by code_simp
  have h1: "init paged_database = (Fulfilled (), paged_database)" using op by (rule init_opened)
  have h2: "\<not> io_error paged_database" by code_simp
  have h3: "folders ?q = None" by (simp add: default_query_def)
  have h3': "folders ?q = None \<or> acyclic (feed_edges (priv_feeds paged_database))" using h3 by simp
  have h4: "sortOrder ?q = JUndefined \<or> sortOrder ?q = JString ''date''"
    by (simp add: default_query_def)
  have h5: "sortDirection ?q = JString ''desc''" by (simp add: default_query_def)
  have h6: "offset ?q = Some (Finite 1)" by simp
  have h7: "(0::int) \<le> 1" by simp
  have h8: "limit ?q = None \<or> (\<exists>l. limit ?q = Some (Finite l) \<and> 0 \<le> l)" by simp
  have "find_store (stores (disk paged_database)) ''entries'' \<noteq> None" by code_simp
  then have h9: "find_store (stores (disk paged_database)) ''entries'' = Some ?st" by simp
  have h10: "map_of (indexes ?st) ''deleted_read_feedID_date'' = Some composite_index" by code_simp
  have h11: "\<not> multiEntry composite_index" by (simp add: composite_index_def)
  have pf: "priv_filters ?q (priv_feeds paged_database) = Some (Inr ?F, ?q)" by code_simp
  have dfn: "\<forall>(k, v)\<in>set (records ?st). indexed composite_index v \<longrightarrow> \<not> isl (filterFunction ?F v)"
    by code_simp
  have m: "matching (filterFunction ?F) composite_index (records ?st) = 2" by code_simp
  have pg: "page (Some (Finite 5)) 1 2 = 1" by (simp add: page_def)
  have c: "map_option fst (count ?q paged_database) = Some (Fulfilled 1)" by code_simp
  from count_paginates [OF h1 h2 h3' h4 h5 h6 h7 h8 h9 h10 h11] pf dfn
  have "\<exists>s2. count ?q paged_database
      = Some (Fulfilled (page (limit ?q) 1 (matching (filterFunction ?F) composite_index (records ?st))),
              ?q, s2)"
    by auto
  with m have "\<exists>s2. count ?q paged_database = Some (Fulfilled (page (Some (Finite 5)) 1 2), ?q, s2)"
    by simp
  with pf m have "\<exists>f q' s2. priv_filters ?q (priv_feeds paged_database) = Some (Inr f, q')
         \<and> matching (filterFunction f) composite_index (records ?st) = 2
         \<and> count ?q paged_database = Some (Fulfilled (page (Some (Finite 5)) 1 2), q', s2)"
    by blast
  with h1 h2 h3 h9 h10 h11 pg c show ?thesis by blast
qed

text \<open>
  Claim C4 as stated fails where a stored entry is not in the index. The entries store
  holds two entries that satisfy the predicate of \<^verbatim>\<open>{read: false, deleted: 0}\<close>; one of
  them has no \<^verbatim>\<open>date\<close>, so the index \<^verbatim>\<open>deleted_read_feedID_date\<close> has no entry for it and
  the cursor never visits it. With offset 0 and no limit \<^verbatim>\<open>count()\<close> returns 1, not 2.
\<close>

theorem count_unindexed_counterexample:
  "map_option fst
     (count (default_query\<lparr>read := JBool False, deleted := JNumber (Finite 0)\<rparr>) undated_database)
     = Some (Fulfilled 1)
   \<and> (case priv_filters (default_query\<lparr>read := JBool False, deleted := JNumber (Finite 0)\<rparr>)
             (priv_feeds undated_database) of
        Some (Inr f, _) \<Rightarrow>
          length (filter (\<lambda>(k, v). filterFunction f v = Inr True)
            (case find_store (stores (disk undated_database)) ''entries'' of
               Some st \<Rightarrow> records st | None \<Rightarrow> []))
      | _ \<Rightarrow> 0) = 2
   \<and> offset (default_query\<lparr>read := JBool False, deleted := JNumber (Finite 0)\<rparr>) = Some (Finite 0)
   \<and> limit (default_query\<lparr>read := JBool False, deleted := JNumber (Finite 0)\<rparr>) = None
   \<and> page None 0 2 = 2"
  by code_simp

end
